theory Spec2Isabelle
  imports Main
begin

section \<open>Strings\<close>

text \<open>
  JavaScript strings are modelled as \<^typ>\<open>string\<close>, read as the UTF-8 bytes of the
  text: every example of the sources is ASCII, and \<open>encodeURIComponent\<close> works on the
  UTF-8 bytes of its argument. Strings that are not well-formed UTF-16 (lone surrogates,
  on which \<open>encodeURIComponent\<close> throws) have no counterpart in the model.
\<close>

text \<open>\<open>Array.prototype.join\<close> on an array of strings.\<close>

fun join :: "string \<Rightarrow> string list \<Rightarrow> string" where
  "join sep [] = []"
| "join sep [x] = x"
| "join sep (x # y # ys) = x @ sep @ join sep (y # ys)"

text \<open>\<open>String.prototype.startsWith\<close>, \<open>endsWith\<close> and \<open>includes\<close>.\<close>

fun startsWith :: "string \<Rightarrow> string \<Rightarrow> bool" where
  "startsWith s [] = True"
| "startsWith [] (p # ps) = False"
| "startsWith (c # cs) (p # ps) = (c = p \<and> startsWith cs ps)"

definition endsWith :: "string \<Rightarrow> string \<Rightarrow> bool" where
  "endsWith s p = startsWith (rev s) (rev p)"

fun includesStr :: "string \<Rightarrow> string \<Rightarrow> bool" where
  "includesStr [] p = (p = [])"
| "includesStr (c # cs) p = (startsWith (c # cs) p \<or> includesStr cs p)"

text \<open>\<open>String(v)\<close> of an integral number: decimal digits, a minus sign when negative.\<close>

definition digitChar :: "nat \<Rightarrow> char" where
  "digitChar d = ''0123456789'' ! d"

fun digits :: "nat \<Rightarrow> string" where
  "digits n = (if n < 10 then [digitChar n] else digits (n div 10) @ [digitChar (n mod 10)])"

declare digits.simps [simp del]

definition showInt :: "int \<Rightarrow> string" where
  "showInt i = (if i < 0 then ''-'' @ digits (nat (- i)) else digits (nat i))"

section \<open>Query parameters (canvasApi.ts, stringifyQueryParameters)\<close>

text \<open>
  \<open>QueryParams = Record<string, string | number | (string | number)[]>\<close>. The record is
  given as its entries in the order \<open>for (const key in parameters)\<close> visits them (keys
  that are array indices first, in ascending order, then the others in the order of their
  creation). Numbers are the integers that \<open>String\<close> prints in plain decimal digits
  (magnitude below \<open>10^21\<close>).
\<close>

datatype scalar = Str string | Num int

datatype qvalue = Scalar scalar | Array "scalar list"

type_synonym QueryParams = "(string \<times> qvalue) list"

fun String :: "scalar \<Rightarrow> string" where
  "String (Str s) = s"
| "String (Num n) = showInt n"

text \<open>
  \<open>encodeURIComponent\<close>: letters, digits and \<open>- _ . ! ~ * ' ( )\<close> stay; every other
  byte becomes \<open>%XX\<close> with upper-case hexadecimal digits.
\<close>

definition uriUnreserved :: "char list" where
  "uriUnreserved =
     ''ABCDEFGHIJKLMNOPQRSTUVWXYZabcdefghijklmnopqrstuvwxyz0123456789-_.!~*()'' @ [CHR 0x27]"

definition hexChar :: "nat \<Rightarrow> char" where
  "hexChar d = ''0123456789ABCDEF'' ! d"

definition pctChars :: string where
  "pctChars = ''%0123456789ABCDEF''"

definition pctEncode :: "char \<Rightarrow> string" where
  "pctEncode c = [CHR ''%'', hexChar (of_char c div 16), hexChar (of_char c mod 16)]"

definition encodeChar :: "char \<Rightarrow> string" where
  "encodeChar c = (if c \<in> set uriUnreserved then [c] else pctEncode c)"

definition encodeURIComponent :: "string \<Rightarrow> string" where
  "encodeURIComponent s = concat (map encodeChar s)"

text \<open>The inner loop \<open>for (const v of value) keyValues.push(...)\<close>.\<close>

fun pushArray :: "string \<Rightarrow> scalar list \<Rightarrow> string list \<Rightarrow> string list" where
  "pushArray key [] keyValues = keyValues"
| "pushArray key (v # vs) keyValues =
     pushArray key vs
       (keyValues @ [encodeURIComponent key @ ''[]='' @ encodeURIComponent (String v)])"

text \<open>The outer loop \<open>for (const key in parameters)\<close>, on the array \<open>keyValues\<close>.\<close>

fun collectKeyValues :: "QueryParams \<Rightarrow> string list \<Rightarrow> string list" where
  "collectKeyValues [] keyValues = keyValues"
| "collectKeyValues ((key, Array vs) # ps) keyValues =
     collectKeyValues ps (pushArray key vs keyValues)"
| "collectKeyValues ((key, Scalar v) # ps) keyValues =
     collectKeyValues ps
       (keyValues @ [encodeURIComponent key @ ''='' @ encodeURIComponent (String v)])"

definition stringifyQueryParameters :: "QueryParams \<Rightarrow> string" where
  "stringifyQueryParameters parameters =
     (let keyValues = collectKeyValues parameters []
      in if length keyValues = 0 then '''' else ''?'' @ join ''&'' keyValues)"

text \<open>
  The serialization as the specification words it: the pairs one parameter contributes.
\<close>

fun specPairs :: "string \<times> qvalue \<Rightarrow> string list" where
  "specPairs (key, Array vs) =
     map (\<lambda>v. encodeURIComponent key @ ''[]='' @ encodeURIComponent (String v)) vs"
| "specPairs (key, Scalar v) =
     [encodeURIComponent key @ ''='' @ encodeURIComponent (String v)]"

definition specQuery :: "QueryParams \<Rightarrow> string" where
  "specQuery parameters =
     (if concat (map specPairs parameters) = [] then ''''
      else ''?'' @ join ''&'' (concat (map specPairs parameters)))"

section \<open>Link headers (canvasApi.ts, getNextUrl)\<close>

text \<open>
  A header value of undici is \<open>string | string[]\<close>.
\<close>

datatype headerValue = Single string | Multi "string list"

text \<open>\<open>String.prototype.split\<close> with a one-character separator.\<close>

fun splitAcc :: "char \<Rightarrow> string \<Rightarrow> string \<Rightarrow> string list" where
  "splitAcc sep cur [] = [cur]"
| "splitAcc sep cur (c # cs) =
     (if c = sep then cur # splitAcc sep [] cs else splitAcc sep (cur @ [c]) cs)"

definition split :: "string \<Rightarrow> char \<Rightarrow> string list" where
  "split s sep = splitAcc sep [] s"

definition relNext :: string where
  \<open>relNext = ''rel="next"''\<close>

text \<open>
  \<open>l.search(/rel="next"$/) !== -1\<close>: the pattern has no \<open>m\<close> flag, so \<open>$\<close> is the end
  of the input and the test says that \<open>l\<close> ends with \<open>rel="next"\<close>.
\<close>

definition searchRelNext :: "string \<Rightarrow> bool" where
  "searchRelNext l = endsWith l relNext"

text \<open>
  \<open>next.match(/<(.*?)>/)\<close>, group 1 of the leftmost match: from a \<open><\<close>, the lazy
  \<open>.*?\<close> takes characters that are no line terminator up to the first \<open>>\<close>; when a
  line terminator or the end comes first, the match is tried from a later \<open><\<close>.
  (Of the line terminators of \<open>.\<close>, U+2028 and U+2029 are no single \<^typ>\<open>char\<close>
  and are left out.)
\<close>

definition lineTerminator :: "char \<Rightarrow> bool" where
  "lineTerminator c = (c = CHR 0x0A \<or> c = CHR 0x0D)"

fun lazyUpToGt :: "string \<Rightarrow> string \<Rightarrow> string option" where
  "lazyUpToGt acc [] = None"
| "lazyUpToGt acc (c # cs) =
     (if c = CHR ''>'' then Some acc
      else if lineTerminator c then None
      else lazyUpToGt (acc @ [c]) cs)"

fun matchAngle :: "string \<Rightarrow> string option" where
  "matchAngle [] = None"
| "matchAngle (c # cs) =
     (if c = CHR ''<'' then
        (case lazyUpToGt [] cs of Some u \<Rightarrow> Some u | None \<Rightarrow> matchAngle cs)
      else matchAngle cs)"

definition getNextUrl :: "headerValue \<Rightarrow> string option" where
  "getNextUrl linkHeader =
     (let headerStr = (case linkHeader of Multi xs \<Rightarrow> join '', '' xs | Single s \<Rightarrow> s);
          nxt = find searchRelNext (split headerStr (CHR '',''))
      in case nxt of None \<Rightarrow> None | Some l \<Rightarrow> matchAngle l)"

text \<open>
  The header as the specification describes it: entries \<open><url>; rel="relation"\<close>,
  separated by commas.
\<close>

datatype linkEntry = LinkEntry (entryUrl: string) (entryRel: string)

definition renderEntry :: "linkEntry \<Rightarrow> string" where
  \<open>renderEntry e = ''<'' @ entryUrl e @ ''>; rel="'' @ entryRel e @ ''"''\<close>

definition specNextUrl :: "linkEntry list \<Rightarrow> string option" where
  "specNextUrl es = map_option entryUrl (find (\<lambda>e. entryRel e = ''next'') es)"

text \<open>
  Entries that the cut at commas and the two patterns read back: no comma, \<open>>\<close> or line
  terminator in the URL, no double quote or comma in the relation.
\<close>

definition wfEntry :: "linkEntry \<Rightarrow> bool" where
  "wfEntry e =
     (list_all (\<lambda>c. c \<noteq> CHR '','' \<and> c \<noteq> CHR ''>'' \<and> \<not> lineTerminator c) (entryUrl e)
      \<and> list_all (\<lambda>c. c \<noteq> CHR 0x22 \<and> c \<noteq> CHR '','') (entryRel e))"

section \<open>Asynchronous generators (extendedGenerator.ts)\<close>

text \<open>
  The promise returned by one \<open>next()\<close> call settles with a value (\<open>done: false\<close>),
  with \<open>done: true\<close>, or is rejected. A call whose promise never settles has no result
  (\<open>None\<close>).
\<close>

datatype ('a, 'e) iterResult = Yield 'a | Done | Throw 'e

text \<open>
  A generator object is its \<open>next\<close> method, a transition on the state it works on,
  and that state. \<open>ExtendedGenerator\<close> has the one field \<open>generator\<close>.
\<close>

type_synonym ('s, 'a, 'e) nextFn = "'s \<Rightarrow> (('a, 'e) iterResult \<times> 's) option"

record ('s, 'a, 'e) ExtendedGenerator =
  generatorNext :: "('s, 'a, 'e) nextFn"
  generatorState :: 's

text \<open>
  Where a generator function's body stands: not started, suspended at a \<open>yield\<close>, or
  finished (returned or thrown). A finished generator answers \<open>done\<close> to every \<open>next()\<close>.
\<close>

datatype genStatus = SuspendedStart | SuspendedYield | Completed

text \<open>\<open>next()\<close>: hands the call to the wrapped generator.\<close>

definition egNext ::
  "('s, 'a, 'e) ExtendedGenerator \<Rightarrow> (('a, 'e) iterResult \<times> ('s, 'a, 'e) ExtendedGenerator) option"
  where
  "egNext g =
     (case generatorNext g (generatorState g) of
        None \<Rightarrow> None
      | Some (r, s') \<Rightarrow> Some (r, g\<lparr>generatorState := s'\<rparr>))"

text \<open>
  \<open>toArray()\<close>: \<open>for await (const v of this.generator) result.push(v)\<close>. The loop asks
  the generator itself for its iterator, so it goes on from the generator's present state;
  a rejected \<open>next()\<close> rejects \<open>toArray()\<close>.
\<close>

partial_function (option) toArrayLoop ::
  "('s, 'a, 'e) nextFn \<Rightarrow> 's \<Rightarrow> 'a list \<Rightarrow> (('e + 'a list) \<times> 's) option"
  where
  "toArrayLoop nxt s result =
     (case nxt s of
        None \<Rightarrow> None
      | Some (Yield v, s') \<Rightarrow> toArrayLoop nxt s' (result @ [v])
      | Some (Done, s') \<Rightarrow> Some (Inr result, s')
      | Some (Throw e, s') \<Rightarrow> Some (Inl e, s'))"

definition toArray ::
  "('s, 'a, 'e) ExtendedGenerator \<Rightarrow> (('e + 'a list) \<times> ('s, 'a, 'e) ExtendedGenerator) option"
  where
  "toArray g =
     (case toArrayLoop (generatorNext g) (generatorState g) [] of
        None \<Rightarrow> None
      | Some (r, s') \<Rightarrow> Some (r, g\<lparr>generatorState := s'\<rparr>))"

text \<open>
  \<open>filter(predicate)\<close>: the new generator's body is
  \<open>for await (const v of g) if (predicate(v)) yield v\<close>. The predicate (and the
  callback of \<open>map\<close>) is a function that returns; one that throws is not modelled.
\<close>

partial_function (option) filterLoop ::
  "('a \<Rightarrow> bool) \<Rightarrow> ('s, 'a, 'e) nextFn \<Rightarrow> 's \<Rightarrow> (('a, 'e) iterResult \<times> genStatus \<times> 's) option"
  where
  "filterLoop predicate g s =
     (case g s of
        None \<Rightarrow> None
      | Some (Yield v, s') \<Rightarrow>
          if predicate v then Some (Yield v, SuspendedYield, s') else filterLoop predicate g s'
      | Some (Done, s') \<Rightarrow> Some (Done, Completed, s')
      | Some (Throw e, s') \<Rightarrow> Some (Throw e, Completed, s'))"

definition filterNext ::
  "('a \<Rightarrow> bool) \<Rightarrow> ('s, 'a, 'e) nextFn \<Rightarrow> (genStatus \<times> 's, 'a, 'e) nextFn"
  where
  "filterNext predicate g st =
     (case st of
        (Completed, s) \<Rightarrow> Some (Done, Completed, s)
      | (_, s) \<Rightarrow> filterLoop predicate g s)"

definition filterGen ::
  "('a \<Rightarrow> bool) \<Rightarrow> ('s, 'a, 'e) ExtendedGenerator \<Rightarrow> (genStatus \<times> 's, 'a, 'e) ExtendedGenerator"
  where
  "filterGen predicate this =
     \<lparr>generatorNext = filterNext predicate (generatorNext this),
      generatorState = (SuspendedStart, generatorState this)\<rparr>"

text \<open>\<open>map(callback)\<close>: \<open>for await (const v of gen) yield callback(v)\<close>.\<close>

definition mapNext ::
  "('a \<Rightarrow> 'b) \<Rightarrow> ('s, 'a, 'e) nextFn \<Rightarrow> (genStatus \<times> 's, 'b, 'e) nextFn"
  where
  "mapNext callback gen st =
     (case st of
        (Completed, s) \<Rightarrow> Some (Done, Completed, s)
      | (_, s) \<Rightarrow>
          (case gen s of
             None \<Rightarrow> None
           | Some (Yield v, s') \<Rightarrow> Some (Yield (callback v), SuspendedYield, s')
           | Some (Done, s') \<Rightarrow> Some (Done, Completed, s')
           | Some (Throw e, s') \<Rightarrow> Some (Throw e, Completed, s')))"

definition mapGen ::
  "('a \<Rightarrow> 'b) \<Rightarrow> ('s, 'a, 'e) ExtendedGenerator \<Rightarrow> (genStatus \<times> 's, 'b, 'e) ExtendedGenerator"
  where
  "mapGen callback this =
     \<lparr>generatorNext = mapNext callback (generatorNext this),
      generatorState = (SuspendedStart, generatorState this)\<rparr>"

text \<open>
  \<open>take(n)\<close>: \<open>while (n > 0) { const next = await gen.next(); if (next.done) return
  next.value; yield next.value; n--; }\<close>. The counter \<open>n\<close>, an integer here, is part
  of the new generator's state; \<open>n--\<close> runs when the generator is resumed after the
  \<open>yield\<close>.
\<close>

definition takeLoop ::
  "('s, 'a, 'e) nextFn \<Rightarrow> int \<Rightarrow> 's \<Rightarrow> (('a, 'e) iterResult \<times> genStatus \<times> int \<times> 's) option"
  where
  "takeLoop gen n s =
     (if n > 0 then
        (case gen s of
           None \<Rightarrow> None
         | Some (Yield v, s') \<Rightarrow> Some (Yield v, SuspendedYield, n, s')
         | Some (Done, s') \<Rightarrow> Some (Done, Completed, n, s')
         | Some (Throw e, s') \<Rightarrow> Some (Throw e, Completed, n, s'))
      else Some (Done, Completed, n, s))"

definition takeNext :: "('s, 'a, 'e) nextFn \<Rightarrow> (genStatus \<times> int \<times> 's, 'a, 'e) nextFn" where
  "takeNext gen st =
     (case st of
        (Completed, n, s) \<Rightarrow> Some (Done, Completed, n, s)
      | (SuspendedStart, n, s) \<Rightarrow> takeLoop gen n s
      | (SuspendedYield, n, s) \<Rightarrow> takeLoop gen (n - 1) s)"

definition takeGen ::
  "int \<Rightarrow> ('s, 'a, 'e) ExtendedGenerator \<Rightarrow> (genStatus \<times> int \<times> 's, 'a, 'e) ExtendedGenerator"
  where
  "takeGen n this =
     \<lparr>generatorNext = takeNext (generatorNext this),
      generatorState = (SuspendedStart, n, generatorState this)\<rparr>"

text \<open>
  A producer with a counter of the \<open>next()\<close> calls it has received, and the generator
  \<open>async function* () { yield x1; ...; yield xn }\<close> of the tests.
\<close>

definition counting :: "('s, 'a, 'e) nextFn \<Rightarrow> (nat \<times> 's, 'a, 'e) nextFn" where
  "counting g st =
     (case st of (calls, s) \<Rightarrow>
        (case g s of None \<Rightarrow> None | Some (r, s') \<Rightarrow> Some (r, Suc calls, s')))"

definition listNext :: "('a list, 'a, 'e) nextFn" where
  "listNext s = (case s of [] \<Rightarrow> Some (Done, []) | x # xs \<Rightarrow> Some (Yield x, xs))"

definition listGen :: "'a list \<Rightarrow> ('a list, 'a, 'e) ExtendedGenerator" where
  "listGen xs = \<lparr>generatorNext = listNext, generatorState = xs\<rparr>"

section \<open>Responses and errors (canvasApiResponse.ts, canvasApiError.ts)\<close>

text \<open>
  A parsed JSON value. \<open>JSON.parse\<close> itself is a parameter \<open>jsonParse\<close> of the model
  (\<open>Inl\<close> for the \<open>SyntaxError\<close> it throws).
\<close>

datatype json =
  JNull | JBool bool | JNumber int | JString string | JArray "json list"
  | JObject "(string \<times> json) list"

text \<open>
  The body of undici's \<open>ResponseData\<close>: a stream that \<open>body.text()\<close> reads once; a
  second \<open>text()\<close> on the stream is rejected. \<open>Replay t\<close> is a body whose \<open>text\<close>
  method has been replaced by \<open>async () => t\<close>.
\<close>

datatype bodyReader = Unread string | Consumed | Replay string

fun bodyText :: "bodyReader \<Rightarrow> (string + string) \<times> bodyReader" where
  "bodyText (Unread t) = (Inr t, Consumed)"
| "bodyText Consumed = (Inl ''Body is unusable'', Consumed)"
| "bodyText (Replay t) = (Inr t, Replay t)"

record ResponseData =
  resStatusCode :: int
  resHeaders :: "(string \<times> headerValue) list"
  resBody :: bodyReader

text \<open>
  \<open>CanvasApiResponse\<close>; its fields \<open>body\<close> and \<open>text\<close> are \<open>jsonBody\<close> and
  \<open>rawText\<close> here.
\<close>

record CanvasApiResponse =
  statusCode :: int
  headers :: "(string \<times> headerValue) list"
  json :: "json option"
  jsonBody :: "json option"
  rawText :: string
  parseError :: "string option"

datatype CanvasApiError =
    CanvasApiResponseError CanvasApiResponse
  | CanvasApiRequestError string
  | CanvasApiTimeoutError
  | CanvasApiPaginationError CanvasApiResponse
  | TypeError string

text \<open>What a rejected transport promise carries: the abort of a timeout, or a message.\<close>

datatype requestFailure = TimeoutFailure | OtherFailure string

text \<open>\<open>new CanvasApiResponse().parseBody(response)\<close>; \<open>Inl\<close> when \<open>body.text()\<close> rejects.\<close>

definition parseBody ::
  "(string \<Rightarrow> string + json) \<Rightarrow> ResponseData \<Rightarrow> string + CanvasApiResponse" where
  "parseBody jsonParse response =
     (case fst (bodyText (resBody response)) of
        Inl err \<Rightarrow> Inl err
      | Inr t \<Rightarrow>
          (case jsonParse t of
             Inr j \<Rightarrow>
               Inr \<lparr>statusCode = resStatusCode response, headers = resHeaders response,
                    json = Some j, jsonBody = Some j, rawText = t, parseError = None\<rparr>
           | Inl err \<Rightarrow>
               Inr \<lparr>statusCode = resStatusCode response, headers = resHeaders response,
                    json = None, jsonBody = None, rawText = t, parseError = Some err\<rparr>))"

section \<open>Requests (canvasApi.ts, CanvasApi._request)\<close>

text \<open>
  What \<open>_request\<close> does with the settled promise of \<open>this.__request__\<close>:
  \<open>.then(parseBody)\<close>, \<open>.catch\<close> (a timeout becomes \<open>CanvasApiTimeoutError\<close>, any other
  rejection \<open>CanvasApiRequestError(err.message)\<close>), then the check \<open>statusCode >= 400\<close>.
\<close>

definition settleResponse ::
  "(string \<Rightarrow> string + json) \<Rightarrow> requestFailure + ResponseData
   \<Rightarrow> CanvasApiError + CanvasApiResponse" where
  "settleResponse jsonParse outcome =
     (case outcome of
        Inl TimeoutFailure \<Rightarrow> Inl CanvasApiTimeoutError
      | Inl (OtherFailure msg) \<Rightarrow> Inl (CanvasApiRequestError msg)
      | Inr undiciResponse \<Rightarrow>
          (case parseBody jsonParse undiciResponse of
             Inl msg \<Rightarrow> Inl (CanvasApiRequestError msg)
           | Inr response \<Rightarrow>
               if statusCode response \<ge> 400 then Inl (CanvasApiResponseError response)
               else Inr response))"

text \<open>
  The client as \<open>_request\<close> uses it: \<open>resolveUrl endpoint\<close> is
  \<open>new URL(endpoint, this.apiUrl).toString()\<close> (\<open>Inl\<close> when the constructor throws),
  \<open>send url method\<close> is \<open>this.__request__(url, {method, ...})\<close> acting on a world of
  type \<open>'w\<close>. Headers, the request body and the timeout signal are not modelled.
\<close>

record 'w CanvasApi =
  resolveUrl :: "string \<Rightarrow> string + string"
  send :: "string \<Rightarrow> string \<Rightarrow> 'w \<Rightarrow> ((requestFailure + ResponseData) \<times> 'w) option"
  jsonParse :: "string \<Rightarrow> string + json"

definition CanvasApi_request ::
  "'w CanvasApi \<Rightarrow> string \<Rightarrow> string \<Rightarrow> QueryParams option \<Rightarrow> 'w
   \<Rightarrow> ((CanvasApiError + CanvasApiResponse) \<times> 'w) option" where
  "CanvasApi_request t endpoint method params w =
     (case resolveUrl t endpoint of
        Inl msg \<Rightarrow> Some (Inl (TypeError msg), w)
      | Inr resolved \<Rightarrow>
          (let url = (case params of
                        Some ps \<Rightarrow> resolved @ stringifyQueryParameters ps
                      | None \<Rightarrow> resolved)
           in case send t url method w of
                None \<Rightarrow> None
              | Some (outcome, w') \<Rightarrow> Some (settleResponse (jsonParse t) outcome, w')))"

section \<open>Pagination (canvasApi.ts, listPages and listItems)\<close>

text \<open>
  The variables of \<open>listPages\<close>' generator: \<open>url\<close>, \<open>queryParams\<close> (assigned in the
  loop) and the \<open>response\<close> of the iteration suspended at \<open>yield\<close>.
\<close>

record pagesLocals =
  pgStatus :: genStatus
  pgUrl :: "string option"
  pgQueryParams :: QueryParams
  pgResponse :: "CanvasApiResponse option"

text \<open>\<open>response.headers.link && getNextUrl(response.headers.link)\<close>.\<close>

definition nextLink :: "CanvasApiResponse \<Rightarrow> string option" where
  "nextLink response =
     (case map_of (headers response) ''link'' of
        None \<Rightarrow> None
      | Some link \<Rightarrow> if link = Single [] then Some [] else getNextUrl link)"

text \<open>
  From the loop test \<open>while (url)\<close> to the next \<open>yield\<close>, return or throw. A string is
  truthy when it is not empty.
\<close>

definition pagesLoop ::
  "'w CanvasApi \<Rightarrow> pagesLocals \<Rightarrow> 'w
   \<Rightarrow> ((CanvasApiResponse, CanvasApiError) iterResult \<times> pagesLocals \<times> 'w) option" where
  "pagesLoop t loc w =
     (case pgUrl loc of
        None \<Rightarrow> Some (Done, loc\<lparr>pgStatus := Completed\<rparr>, w)
      | Some u \<Rightarrow>
          if u = [] then Some (Done, loc\<lparr>pgStatus := Completed\<rparr>, w)
          else
            (case CanvasApi_request t u ''GET'' (Some (pgQueryParams loc)) w of
               None \<Rightarrow> None
             | Some (Inl err, w') \<Rightarrow> Some (Throw err, loc\<lparr>pgStatus := Completed\<rparr>, w')
             | Some (Inr response, w') \<Rightarrow>
                 Some (Yield response,
                       loc\<lparr>pgStatus := SuspendedYield, pgResponse := Some response\<rparr>, w')))"

definition pagesNext ::
  "'w CanvasApi \<Rightarrow> string \<Rightarrow> (pagesLocals \<times> 'w, CanvasApiResponse, CanvasApiError) nextFn"
  where
  "pagesNext t endpoint st =
     (case st of (loc, w) \<Rightarrow>
        (case pgStatus loc of
           Completed \<Rightarrow> Some (Done, loc, w)
         | SuspendedStart \<Rightarrow> pagesLoop t (loc\<lparr>pgUrl := Some endpoint\<rparr>) w
         | SuspendedYield \<Rightarrow>
             pagesLoop t
               (loc\<lparr>pgUrl := (case pgResponse loc of None \<Rightarrow> None | Some r \<Rightarrow> nextLink r),
                    pgQueryParams := []\<rparr>) w))"

text \<open>\<open>return()\<close> on the generator: it is finished from then on.\<close>

definition pagesReturn :: "pagesLocals \<times> 'w \<Rightarrow> pagesLocals \<times> 'w" where
  "pagesReturn st = (case st of (loc, w) \<Rightarrow> (loc\<lparr>pgStatus := Completed\<rparr>, w))"

definition pagesStart :: "QueryParams \<Rightarrow> pagesLocals" where
  "pagesStart queryParams =
     \<lparr>pgStatus = SuspendedStart, pgUrl = None, pgQueryParams = queryParams, pgResponse = None\<rparr>"

definition CanvasApi_listPages ::
  "'w CanvasApi \<Rightarrow> string \<Rightarrow> QueryParams \<Rightarrow> 'w
   \<Rightarrow> (pagesLocals \<times> 'w, CanvasApiResponse, CanvasApiError) ExtendedGenerator" where
  "CanvasApi_listPages t endpoint queryParams w =
     \<lparr>generatorNext = pagesNext t endpoint, generatorState = (pagesStart queryParams, w)\<rparr>"

text \<open>
  \<open>listItems\<close>' generator, over any generator of pages (its \<open>next\<close> and \<open>return\<close>):
  \<open>for await (const page of pages) { if (!Array.isArray(page.json)) throw ...; for (const
  element of page.json) yield element; }\<close>. \<open>itElements\<close> holds the elements of the
  page that the inner loop has still to yield. Leaving the loop by the throw calls the
  page generator's \<open>return()\<close>.
\<close>

record itemsLocals =
  itStatus :: genStatus
  itElements :: "json list"

partial_function (option) itemsPull ::
  "('s, CanvasApiResponse, CanvasApiError) nextFn \<Rightarrow> ('s \<Rightarrow> 's) \<Rightarrow> 's
   \<Rightarrow> ((json, CanvasApiError) iterResult \<times> itemsLocals \<times> 's) option" where
  "itemsPull pages pagesRet s =
     (case pages s of
        None \<Rightarrow> None
      | Some (Done, s') \<Rightarrow> Some (Done, \<lparr>itStatus = Completed, itElements = []\<rparr>, s')
      | Some (Throw e, s') \<Rightarrow> Some (Throw e, \<lparr>itStatus = Completed, itElements = []\<rparr>, s')
      | Some (Yield page, s') \<Rightarrow>
          (case json page of
             Some (JArray elements) \<Rightarrow>
               (case elements of
                  [] \<Rightarrow> itemsPull pages pagesRet s'
                | element # rest \<Rightarrow>
                    Some (Yield element, \<lparr>itStatus = SuspendedYield, itElements = rest\<rparr>, s'))
           | _ \<Rightarrow>
               Some (Throw (CanvasApiPaginationError page),
                     \<lparr>itStatus = Completed, itElements = []\<rparr>, pagesRet s')))"

definition itemsNext ::
  "('s, CanvasApiResponse, CanvasApiError) nextFn \<Rightarrow> ('s \<Rightarrow> 's)
   \<Rightarrow> (itemsLocals \<times> 's, json, CanvasApiError) nextFn" where
  "itemsNext pages pagesRet st =
     (case st of (loc, s) \<Rightarrow>
        (case itStatus loc of
           Completed \<Rightarrow> Some (Done, loc, s)
         | SuspendedStart \<Rightarrow> itemsPull pages pagesRet s
         | SuspendedYield \<Rightarrow>
             (case itElements loc of
                element # rest \<Rightarrow> Some (Yield element, loc\<lparr>itElements := rest\<rparr>, s)
              | [] \<Rightarrow> itemsPull pages pagesRet s)))"

definition itemsStart :: itemsLocals where
  "itemsStart = \<lparr>itStatus = SuspendedStart, itElements = []\<rparr>"

definition CanvasApi_listItems ::
  "'w CanvasApi \<Rightarrow> string \<Rightarrow> QueryParams \<Rightarrow> 'w
   \<Rightarrow> (itemsLocals \<times> pagesLocals \<times> 'w, json, CanvasApiError) ExtendedGenerator" where
  "CanvasApi_listItems t endpoint queryParams w =
     \<lparr>generatorNext = itemsNext (pagesNext t endpoint) pagesReturn,
      generatorState = (itemsStart, pagesStart queryParams, w)\<rparr>"

text \<open>
  A finite run of a generator from a state: the values it yields, then how it ends
  (\<open>None\<close> for \<open>done\<close>, \<open>Some e\<close> for a rejection), and the state it ends in.
\<close>

inductive run :: "('s, 'a, 'e) nextFn \<Rightarrow> 's \<Rightarrow> 'a list \<Rightarrow> 'e option \<Rightarrow> 's \<Rightarrow> bool" where
  run_Done: "nxt s = Some (Done, s') \<Longrightarrow> run nxt s [] None s'"
| run_Throw: "nxt s = Some (Throw e, s') \<Longrightarrow> run nxt s [] (Some e) s'"
| run_Yield: "nxt s = Some (Yield v, s') \<Longrightarrow> run nxt s' vs out s'' \<Longrightarrow> run nxt s (v # vs) out s''"

text \<open>A transport that keeps a log of the requests it is asked to send.\<close>

definition logged ::
  "(string \<Rightarrow> string \<Rightarrow> 'w \<Rightarrow> ((requestFailure + ResponseData) \<times> 'w) option)
   \<Rightarrow> string \<Rightarrow> string \<Rightarrow> (string \<times> string) list \<times> 'w
   \<Rightarrow> ((requestFailure + ResponseData) \<times> (string \<times> string) list \<times> 'w) option" where
  "logged transport url method st =
     (case st of (log, w) \<Rightarrow>
        (case transport url method w of
           None \<Rightarrow> None
         | Some (outcome, w') \<Rightarrow> Some (outcome, log @ [(method, url)], w')))"

text \<open>The pages a list of elements is read from, for stating what \<open>listItems\<close> yields.\<close>

definition isArrayPage :: "CanvasApiResponse \<Rightarrow> bool" where
  "isArrayPage page = (case json page of Some (JArray elements) \<Rightarrow> True | _ \<Rightarrow> False)"

definition pageElements :: "CanvasApiResponse \<Rightarrow> json list" where
  "pageElements page = (case json page of Some (JArray elements) \<Rightarrow> elements | _ \<Rightarrow> [])"

text \<open>
  The mock pool of canvasApi.test.ts (\<open>describe("listItems")\<close>) behind a client for
  \<open>https://canvas.local/\<close>: \<open>courses/page1\<close> answers \<open>[1,2,3]\<close> with a \<open>next\<close> link to
  \<open>courses/page2\<close>, which answers \<open>[4,5]\<close>; \<open>assignments/page1?arg=1\<close> links to
  \<open>assignments/page2?other=2\<close>. One endpoint is added to the pool of the test file:
  \<open>single\<close> answers one object. \<open>testResolveUrl\<close> and \<open>testJsonParse\<close> are
  \<open>new URL(endpoint, apiUrl).toString()\<close> and \<open>JSON.parse\<close> on the strings of this
  pool.
\<close>

definition testResolveUrl :: "string \<Rightarrow> string + string" where
  "testResolveUrl endpoint =
     (if startsWith endpoint ''https://'' then Inr endpoint
      else Inr (''https://canvas.local/'' @ endpoint))"

definition testJsonParse :: "string \<Rightarrow> string + json" where
  \<open>testJsonParse t =
     (if t = ''[1,2,3]'' then Inr (JArray [JNumber 1, JNumber 2, JNumber 3])
      else if t = ''[4,5]'' then Inr (JArray [JNumber 4, JNumber 5])
      else if t = ''{"id":1}'' then Inr (JObject [(''id'', JNumber 1)])
      else Inl ''SyntaxError'')\<close>

definition testPool ::
  "string \<Rightarrow> string \<Rightarrow> unit \<Rightarrow> ((requestFailure + ResponseData) \<times> unit) option" where
  \<open>testPool url method w =
     (if method = ''GET'' \<and> url = ''https://canvas.local/courses/page1'' then
        Some (Inr \<lparr>resStatusCode = 200,
                   resHeaders = [(''link'', Single ''<https://canvas.local/courses/page2>; rel="next"'')],
                   resBody = Unread ''[1,2,3]''\<rparr>, w)
      else if method = ''GET'' \<and> url = ''https://canvas.local/courses/page2'' then
        Some (Inr \<lparr>resStatusCode = 200, resHeaders = [], resBody = Unread ''[4,5]''\<rparr>, w)
      else if method = ''GET'' \<and> url = ''https://canvas.local/assignments/page1?arg=1'' then
        Some (Inr \<lparr>resStatusCode = 200,
                   resHeaders = [(''link'',
                     Single ''<https://canvas.local/assignments/page2?other=2>; rel="next"'')],
                   resBody = Unread ''[1,2,3]''\<rparr>, w)
      else if method = ''GET'' \<and> url = ''https://canvas.local/assignments/page2?other=2'' then
        Some (Inr \<lparr>resStatusCode = 200, resHeaders = [], resBody = Unread ''[4,5]''\<rparr>, w)
      else if method = ''GET'' \<and> url = ''https://canvas.local/single'' then
        Some (Inr \<lparr>resStatusCode = 200, resHeaders = [], resBody = Unread ''{"id":1}''\<rparr>, w)
      else Some (Inl (OtherFailure ''no mock''), w))\<close>

definition testClient :: "unit CanvasApi" where
  "testClient = \<lparr>resolveUrl = testResolveUrl, send = testPool, jsonParse = testJsonParse\<rparr>"

definition testLoggedClient :: "((string \<times> string) list \<times> unit) CanvasApi" where
  "testLoggedClient =
     \<lparr>resolveUrl = testResolveUrl, send = logged testPool, jsonParse = testJsonParse\<rparr>"

text \<open>The responses these answers parse to.\<close>

definition testPage1 :: CanvasApiResponse where
  \<open>testPage1 =
     \<lparr>statusCode = 200,
      headers = [(''link'', Single ''<https://canvas.local/courses/page2>; rel="next"'')],
      json = Some (JArray [JNumber 1, JNumber 2, JNumber 3]),
      jsonBody = Some (JArray [JNumber 1, JNumber 2, JNumber 3]),
      rawText = ''[1,2,3]'', parseError = None\<rparr>\<close>

definition testPage2 :: CanvasApiResponse where
  "testPage2 =
     \<lparr>statusCode = 200, headers = [],
      json = Some (JArray [JNumber 4, JNumber 5]),
      jsonBody = Some (JArray [JNumber 4, JNumber 5]),
      rawText = ''[4,5]'', parseError = None\<rparr>"

definition testAssignments1 :: CanvasApiResponse where
  \<open>testAssignments1 =
     \<lparr>statusCode = 200,
      headers = [(''link'', Single ''<https://canvas.local/assignments/page2?other=2>; rel="next"'')],
      json = Some (JArray [JNumber 1, JNumber 2, JNumber 3]),
      jsonBody = Some (JArray [JNumber 1, JNumber 2, JNumber 3]),
      rawText = ''[1,2,3]'', parseError = None\<rparr>\<close>

definition testSingle :: CanvasApiResponse where
  \<open>testSingle =
     \<lparr>statusCode = 200, headers = [],
      json = Some (JObject [(''id'', JNumber 1)]),
      jsonBody = Some (JObject [(''id'', JNumber 1)]),
      rawText = ''{"id":1}'', parseError = None\<rparr>\<close>

section \<open>The rate limiter (rateLimiter.ts)\<close>

definition MAX_RETRIES :: nat where
  "MAX_RETRIES = 5"

definition MAX_SAFE_INTEGER :: int where
  "MAX_SAFE_INTEGER = 9007199254740991"

definition rateLimitMarker :: string where
  "rateLimitMarker = ''Rate Limit Exceeded''"

text \<open>\<open>new Error("Canvas API rate limit: max retries exceeded")\<close>, as a rejection.\<close>

definition maxRetriesError :: requestFailure where
  "maxRetriesError = OtherFailure ''Canvas API rate limit: max retries exceeded''"

text \<open>
  \<open>TRateLimitWorkItem = [resolve, reject, workFn, idCounter, retryCount]\<close>: \<open>promise\<close>
  names the promise that \<open>resolve\<close> and \<open>reject\<close> settle, \<open>workUrl\<close> and
  \<open>workMethod\<close> are what \<open>workFn\<close> sends.
\<close>

record workItem =
  promise :: nat
  workUrl :: string
  workMethod :: string
  idCounter :: int
  retryCount :: nat

text \<open>
  The variables of one \<open>rateLimitedRequestFactory\<close> call, and its surroundings: the
  items whose \<open>workFn()\<close> has been called and has not settled yet (\<open>inFlight\<close>), the
  promises settled so far with their outcome, in order (\<open>settlements\<close>), every
  \<open>workFn()\<close> call in order (\<open>dispatched\<close>), and the number of promises created.
  \<open>isIdle\<close> is false between two events exactly when a work loop is suspended at its
  \<open>await\<close> of the delay timer.
\<close>

record rateLimiter =
  limitIntervalMs :: int
  pendingWorkItems :: "workItem list"
  callCounter :: int
  isIdle :: bool
  nextDelay :: int
  intervalPeriodStart :: int
  inFlight :: "workItem list"
  settlements :: "(nat \<times> (requestFailure + ResponseData)) list"
  dispatched :: "workItem list"
  promises :: nat

definition rateLimitedRequestFactory :: "int \<Rightarrow> rateLimiter" where
  "rateLimitedRequestFactory limitMs =
     \<lparr>limitIntervalMs = limitMs, pendingWorkItems = [], callCounter = 0, isIdle = True,
      nextDelay = 0, intervalPeriodStart = 0, inFlight = [], settlements = [],
      dispatched = [], promises = 0\<rparr>"

text \<open>\<open>now\<close> is \<open>Date.now()\<close>.\<close>

definition setDelayToStartAtNextInterval :: "int \<Rightarrow> rateLimiter \<Rightarrow> rateLimiter" where
  "setDelayToStartAtNextInterval now st =
     (let delta = now - intervalPeriodStart st;
          calcDelay = limitIntervalMs st - delta
      in if nextDelay st < calcDelay then st\<lparr>nextDelay := calcDelay\<rparr> else st)"

definition checkAndResetInterval :: "int \<Rightarrow> rateLimiter \<Rightarrow> rateLimiter" where
  "checkAndResetInterval now st =
     (let delta = now - intervalPeriodStart st
      in if delta > limitIntervalMs st then st\<lparr>intervalPeriodStart := now, nextDelay := 0\<rparr>
         else st)"

definition getCallCounter :: "rateLimiter \<Rightarrow> int \<times> rateLimiter" where
  "getCallCounter st =
     (let c = (if callCounter st \<ge> MAX_SAFE_INTEGER then 1 else callCounter st + 1)
      in (c, st\<lparr>callCounter := c\<rparr>))"

text \<open>
  \<open>resolve\<close> and \<open>reject\<close> of a promise: the first call settles it, later calls do
  nothing.
\<close>

definition settle :: "nat \<Rightarrow> requestFailure + ResponseData \<Rightarrow> rateLimiter \<Rightarrow> rateLimiter" where
  "settle p outcome st =
     (if p \<in> fst ` set (settlements st) then st
      else st\<lparr>settlements := settlements st @ [(p, outcome)]\<rparr>)"

text \<open>
  The synchronous part of \<open>request(url, {method, ...})\<close>: a new promise, and its item
  pushed onto the queue. (The call also sets a zero timer for \<open>startWorkLoop\<close>.)
\<close>

definition request :: "string \<Rightarrow> string \<Rightarrow> rateLimiter \<Rightarrow> rateLimiter" where
  "request url method st =
     (case getCallCounter st of (c, st1) \<Rightarrow>
        st1\<lparr>pendingWorkItems :=
              pendingWorkItems st1 @
                [\<lparr>promise = promises st1, workUrl = url, workMethod = method, idCounter = c,
                  retryCount = 0\<rparr>],
            promises := promises st1 + 1\<rparr>)"

text \<open>
  One pass of the loop body from \<open>_checkAndResetInterval()\<close> on: the head item is
  shifted off the queue and its \<open>workFn()\<close> is called; the loop does not wait for the
  response.
\<close>

definition dispatchHead :: "int \<Rightarrow> rateLimiter \<Rightarrow> rateLimiter" where
  "dispatchHead now st =
     (let st1 = checkAndResetInterval now st
      in case pendingWorkItems st1 of
           [] \<Rightarrow> st1
         | item # rest \<Rightarrow>
             st1\<lparr>pendingWorkItems := rest, inFlight := inFlight st1 @ [item],
                 dispatched := dispatched st1 @ [item]\<rparr>)"

lemma dispatchHead_shorter:
  "pendingWorkItems st \<noteq> [] \<Longrightarrow>
   length (pendingWorkItems (dispatchHead now st)) < length (pendingWorkItems st)"
  by (cases "pendingWorkItems st")
    (simp_all add: dispatchHead_def checkAndResetInterval_def Let_def)

text \<open>
  The \<open>while (_pendingWorkItems.length > 0)\<close> loop from its test up to where it
  suspends (\<open>_nextDelay > 0\<close>: the \<open>await\<close> of the timer) or ends (\<open>finally\<close>:
  \<open>_isIdle = true\<close>).
\<close>

function workLoop :: "int \<Rightarrow> rateLimiter \<Rightarrow> rateLimiter" where
  "workLoop now st =
     (if pendingWorkItems st = [] then st\<lparr>isIdle := True\<rparr>
      else if nextDelay st > 0 then st
      else workLoop now (dispatchHead now st))"
  by pat_completeness auto
termination
  by (relation "measure (\<lambda>(now, st). length (pendingWorkItems st))")
    (simp_all add: dispatchHead_shorter)

declare workLoop.simps [simp del]

definition startWorkLoop :: "int \<Rightarrow> rateLimiter \<Rightarrow> rateLimiter" where
  "startWorkLoop now st =
     (if isIdle st then workLoop now (st\<lparr>isIdle := False, intervalPeriodStart := now\<rparr>)
      else st)"

text \<open>
  The delay timer fires and the suspended loop goes on. (With an empty queue
  \<open>shift()\<close> gives \<open>undefined\<close>, the destructuring throws and \<open>finally\<close> ends the loop.)
\<close>

definition timerFired :: "int \<Rightarrow> rateLimiter \<Rightarrow> rateLimiter" where
  "timerFired now st =
     (if isIdle st then st
      else if pendingWorkItems st = [] then (checkAndResetInterval now st)\<lparr>isIdle := True\<rparr>
      else workLoop now (dispatchHead now st))"

text \<open>
  \<open>parseInt(String(remaining), 10)\<close> on the header \<open>x-rate-limit-remaining\<close>: leading
  white space, a sign, decimal digits; \<open>NaN\<close> (\<open>None\<close>) without a digit.
\<close>

definition headerString :: "headerValue \<Rightarrow> string" where
  "headerString h = (case h of Single s \<Rightarrow> s | Multi xs \<Rightarrow> join '','' xs)"

definition isWhiteSpace :: "char \<Rightarrow> bool" where
  "isWhiteSpace c = (c \<in> set [CHR '' '', CHR 0x09, CHR 0x0A, CHR 0x0B, CHR 0x0C, CHR 0x0D])"

definition isDigit :: "char \<Rightarrow> bool" where
  "isDigit c = (c \<in> set ''0123456789'')"

definition digitValue :: "char \<Rightarrow> int" where
  "digitValue c = int (of_char c) - 48"

definition parseInt :: "string \<Rightarrow> int option" where
  "parseInt s =
     (let s1 = dropWhile isWhiteSpace s;
          negative = (s1 \<noteq> [] \<and> hd s1 = CHR ''-'');
          s2 = (if s1 \<noteq> [] \<and> (hd s1 = CHR ''-'' \<or> hd s1 = CHR ''+'') then tl s1 else s1);
          ds = takeWhile isDigit s2;
          n = foldl (\<lambda>a c. 10 * a + digitValue c) 0 ds
      in if ds = [] then None else Some (if negative then - n else n))"

definition lowQuota :: "ResponseData \<Rightarrow> bool" where
  "lowQuota res =
     (case map_of (resHeaders res) ''x-rate-limit-remaining'' of
        None \<Rightarrow> False
      | Some remaining \<Rightarrow>
          (case parseInt (headerString remaining) of
             None \<Rightarrow> False
           | Some remainingNum \<Rightarrow> remainingNum < 50))"

text \<open>
  The \<open>.then\<close> callback on a response. \<open>requeue\<close> is the retry branch: the item goes
  back to the head of the queue with \<open>retryCount + 1\<close> and the same promise, the delay is
  raised, and \<open>startWorkLoop()\<close> is called. \<open>resolveWith\<close> is the tail from
  \<open>workResolve(res)\<close> on. A rejected \<open>res.body.text()\<close> goes to \<open>.catch(workReject)\<close>.
\<close>

definition requeue :: "int \<Rightarrow> workItem \<Rightarrow> rateLimiter \<Rightarrow> rateLimiter" where
  "requeue now item st =
     startWorkLoop now
       (setDelayToStartAtNextInterval now
          (st\<lparr>pendingWorkItems :=
                item\<lparr>retryCount := retryCount item + 1\<rparr> # pendingWorkItems st\<rparr>))"

definition resolveWith :: "int \<Rightarrow> workItem \<Rightarrow> ResponseData \<Rightarrow> rateLimiter \<Rightarrow> rateLimiter" where
  "resolveWith now item res st =
     (let st1 = settle (promise item) (Inr res) st
      in if lowQuota res then setDelayToStartAtNextInterval now st1 else st1)"

definition onResponse :: "int \<Rightarrow> workItem \<Rightarrow> ResponseData \<Rightarrow> rateLimiter \<Rightarrow> rateLimiter" where
  "onResponse now item res st =
     (if resStatusCode res = 403 then
        (case fst (bodyText (resBody res)) of
           Inl err \<Rightarrow> settle (promise item) (Inl (OtherFailure err)) st
         | Inr txt \<Rightarrow>
             if includesStr txt rateLimitMarker then
               (if retryCount item \<ge> MAX_RETRIES then
                  settle (promise item) (Inl maxRetriesError) st
                else requeue now item st)
             else resolveWith now item (res\<lparr>resBody := Replay txt\<rparr>) st)
      else resolveWith now item res st)"

text \<open>
  The events of the event loop that touch the limiter: a \<open>request\<close> call, the zero timer
  of a \<open>request\<close> call firing (\<open>startWorkLoop()\<close>), the delay timer firing, and the
  promise of the \<open>i\<close>-th item in flight being fulfilled with a response or rejected.
  The \<open>await res.body.text()\<close> inside the callback is taken in one step with the rest
  of the callback: what precedes it neither reads nor writes the limiter's variables.
\<close>

datatype event =
    Request string string
  | StartTick int
  | TimerFired int
  | Response nat ResponseData int
  | Failure nat requestFailure

definition removeAt :: "nat \<Rightarrow> 'a list \<Rightarrow> 'a list" where
  "removeAt i xs = take i xs @ drop (Suc i) xs"

fun step :: "rateLimiter \<Rightarrow> event \<Rightarrow> rateLimiter" where
  "step st (Request url method) = request url method st"
| "step st (StartTick now) = startWorkLoop now st"
| "step st (TimerFired now) = timerFired now st"
| "step st (Response i res now) =
     (if i < length (inFlight st) then
        onResponse now (inFlight st ! i) res (st\<lparr>inFlight := removeAt i (inFlight st)\<rparr>)
      else st)"
| "step st (Failure i err) =
     (if i < length (inFlight st) then
        settle (promise (inFlight st ! i)) (Inl err) (st\<lparr>inFlight := removeAt i (inFlight st)\<rparr>)
      else st)"

definition exec :: "event list \<Rightarrow> rateLimiter \<Rightarrow> rateLimiter" where
  "exec events st = foldl step st events"

text \<open>
  The ordering as the specification states it, on the sequence of \<open>workFn()\<close> calls:
  among the calls with one retry count, promises appear in the order of their creation.
\<close>

definition fifoPerRetryCount :: "workItem list \<Rightarrow> bool" where
  "fifoPerRetryCount calls =
     list_all (\<lambda>r. sorted (map promise (filter (\<lambda>item. retryCount item = r) calls)))
       (map retryCount calls)"

definition rateLimited :: "string \<Rightarrow> ResponseData" where
  "rateLimited txt = \<lparr>resStatusCode = 403, resHeaders = [], resBody = Unread txt\<rparr>"

text \<open>A response that the callback takes for a rate-limit rejection.\<close>

definition isRateLimitResponse :: "ResponseData \<Rightarrow> bool" where
  "isRateLimitResponse res =
     (resStatusCode res = 403 \<and>
      (case fst (bodyText (resBody res)) of
         Inl err \<Rightarrow> False
       | Inr txt \<Rightarrow> includesStr txt rateLimitMarker))"

text \<open>
  The queue puts retried items first (\<open>retriedFirst\<close>), and the calls and queue
  entries with retry count 0 are, read in this order, the promises in the order of their
  creation (\<open>freshInOrder\<close>). \<open>retryBounded\<close>: no item waiting or in flight has a
  retry count above the ceiling.
\<close>

definition retriedFirst :: "rateLimiter \<Rightarrow> bool" where
  "retriedFirst st =
     list_all (\<lambda>item. retryCount item = 0)
       (dropWhile (\<lambda>item. retryCount item > 0) (pendingWorkItems st))"

definition freshInOrder :: "rateLimiter \<Rightarrow> bool" where
  "freshInOrder st =
     (map promise (filter (\<lambda>item. retryCount item = 0) (dispatched st))
      @ map promise (filter (\<lambda>item. retryCount item = 0) (pendingWorkItems st))
      = [0..<promises st])"

definition retryBounded :: "rateLimiter \<Rightarrow> bool" where
  "retryBounded st =
     list_all (\<lambda>item. retryCount item \<le> MAX_RETRIES) (pendingWorkItems st @ inFlight st)"

text \<open>
  How often each promise's \<open>workFn()\<close> has been called: for an item in the queue, as
  often as its retry count says; for an item in flight, once more; and never more than
  \<open>MAX_RETRIES + 1\<close> times. No promise has two items waiting or in flight.
\<close>

definition attemptsCounted :: "rateLimiter \<Rightarrow> bool" where
  "attemptsCounted st =
     (distinct (map promise (pendingWorkItems st @ inFlight st))
      \<and> list_all (\<lambda>item. promise item < promises st \<and> retryCount item \<le> MAX_RETRIES
            \<and> count_list (map promise (dispatched st)) (promise item) = retryCount item)
          (pendingWorkItems st)
      \<and> list_all (\<lambda>item. promise item < promises st \<and> retryCount item \<le> MAX_RETRIES
            \<and> count_list (map promise (dispatched st)) (promise item) = retryCount item + 1)
          (inFlight st)
      \<and> list_all (\<lambda>item. promise item < promises st
            \<and> count_list (map promise (dispatched st)) (promise item) \<le> MAX_RETRIES + 1)
          (dispatched st))"

text \<open>
  The events in which one request alone is answered by a rate-limit rejection \<open>res\<close> at
  time \<open>t\<close> and the delay timer fires at \<open>t'\<close>, for each \<open>(res, t, t')\<close> in turn.
\<close>

definition retryRounds :: "(ResponseData \<times> int \<times> int) list \<Rightarrow> event list" where
  "retryRounds rounds =
     concat (map (\<lambda>(res, t, t'). [Response 0 res t, TimerFired t']) rounds)"

text \<open>
  A state whose queue holds one item and which has nothing in flight: after the loop has
  called its \<open>workFn()\<close>, the item alone is in flight.
\<close>

definition aloneInFlight :: "workItem \<Rightarrow> rateLimiter \<Rightarrow> rateLimiter \<Rightarrow> bool" where
  "aloneInFlight item st st' =
     (pendingWorkItems st' = [] \<and> inFlight st' = [item]
      \<and> dispatched st' = dispatched st @ [item] \<and> settlements st' = settlements st
      \<and> promises st' = promises st)"


definition queueOrdered :: "rateLimiter \<Rightarrow> bool" where
  "queueOrdered st = (retriedFirst st \<and> freshInOrder st)"


section \<open>The client's constructor (canvasApi.ts)\<close>

text \<open>
  The constructor's \<open>options\<close>; an absent option is \<open>None\<close>.
\<close>

record constructorOptions =
  optTimeout :: "int option"
  rateLimitIntervalMs :: "int option"
  disableThrottling :: "bool option"

text \<open>
  \<open>__request__\<close> (here \<open>requestField\<close>) is undici's \<open>request\<close> or the function returned by a call of
  \<open>rateLimitedRequestFactory\<close>; the calls of the factory are numbered from 0.
\<close>

datatype requestFn = UndiciRequest | RateLimitedRequest nat

record clientInstance =
  apiUrl :: string
  token :: string
  instanceTimeout :: "int option"
  requestField :: requestFn

text \<open>
  The module's variable \<open>requestWithRateLimitThrottling\<close> (\<open>None\<close> for \<open>undefined\<close>),
  and the \<open>limitIntervalMs\<close> each factory call so far was given.
\<close>

record moduleVars =
  requestWithRateLimitThrottling :: "nat option"
  createdLimiters :: "int list"

definition moduleStart :: moduleVars where
  "moduleStart = \<lparr>requestWithRateLimitThrottling = None, createdLimiters = []\<rparr>"

definition withTrailingSlash :: "string \<Rightarrow> string" where
  "withTrailingSlash url = (if endsWith url ''/'' then url else url @ ''/'')"

text \<open>\<open>rateLimitIntervalMs ?? 1000\<close>.\<close>

definition intervalOf :: "constructorOptions \<Rightarrow> int" where
  "intervalOf options = (case rateLimitIntervalMs options of None \<Rightarrow> 1000 | Some ms \<Rightarrow> ms)"

text \<open>
  \<open>new CanvasApi(apiUrl, token, options)\<close>; \<open>validUrl\<close> says whether \<open>new URL\<close> accepts
  the string (it throws a \<open>TypeError\<close> otherwise, before anything else is done).
\<close>

definition CanvasApi_constructor ::
  "(string \<Rightarrow> bool) \<Rightarrow> string \<Rightarrow> string \<Rightarrow> constructorOptions \<Rightarrow> moduleVars
   \<Rightarrow> (CanvasApiError + clientInstance) \<times> moduleVars" where
  "CanvasApi_constructor validUrl url tok options vars =
     (if \<not> validUrl (withTrailingSlash url) then (Inl (TypeError ''Invalid URL''), vars)
      else if disableThrottling options = Some True then
        (Inr \<lparr>apiUrl = withTrailingSlash url, token = tok, instanceTimeout = optTimeout options,
              requestField = UndiciRequest\<rparr>, vars)
      else
        (case requestWithRateLimitThrottling vars of
           Some shared \<Rightarrow>
             (Inr \<lparr>apiUrl = withTrailingSlash url, token = tok,
                   instanceTimeout = optTimeout options,
                   requestField = RateLimitedRequest shared\<rparr>, vars)
         | None \<Rightarrow>
             (Inr \<lparr>apiUrl = withTrailingSlash url, token = tok,
                   instanceTimeout = optTimeout options,
                   requestField = RateLimitedRequest (length (createdLimiters vars))\<rparr>,
              \<lparr>requestWithRateLimitThrottling = Some (length (createdLimiters vars)),
               createdLimiters = createdLimiters vars @ [intervalOf options]\<rparr>)))"

text \<open>A sequence of constructor calls in one process, and the instances it creates.\<close>

fun constructAll ::
  "(string \<Rightarrow> bool) \<Rightarrow> (string \<times> string \<times> constructorOptions) list \<Rightarrow> moduleVars
   \<Rightarrow> (CanvasApiError + clientInstance) list \<times> moduleVars" where
  "constructAll validUrl [] vars = ([], vars)"
| "constructAll validUrl ((url, tok, options) # calls) vars =
     (case CanvasApi_constructor validUrl url tok options vars of
        (result, vars') \<Rightarrow>
          (case constructAll validUrl calls vars' of
             (results, vars'') \<Rightarrow> (result # results, vars'')))"

fun instancesOf :: "(CanvasApiError + clientInstance) list \<Rightarrow> clientInstance list" where
  "instancesOf [] = []"
| "instancesOf (Inl e # rs) = instancesOf rs"
| "instancesOf (Inr i # rs) = i # instancesOf rs"

text \<open>
  The calls that create an instance, and among them those that do not opt out of
  throttling.
\<close>

definition constructs :: "(string \<Rightarrow> bool) \<Rightarrow> string \<times> string \<times> constructorOptions \<Rightarrow> bool" where
  "constructs validUrl call = (case call of (url, tok, options) \<Rightarrow> validUrl (withTrailingSlash url))"

definition throttles :: "(string \<Rightarrow> bool) \<Rightarrow> string \<times> string \<times> constructorOptions \<Rightarrow> bool" where
  "throttles validUrl call =
     (case call of (url, tok, options) \<Rightarrow>
        validUrl (withTrailingSlash url) \<and> disableThrottling options \<noteq> Some True)"

section \<open>Properties of the query string\<close>

lemma pushArray_append:
  "pushArray key vs keyValues = keyValues @ specPairs (key, Array vs)"
  by (induction vs arbitrary: keyValues) simp_all

lemma collectKeyValues_append:
  "collectKeyValues ps keyValues = keyValues @ concat (map specPairs ps)"
proof (induction ps keyValues rule: collectKeyValues.induct)
  case (1 keyValues)
  show ?case by simp
next
  case (2 key vs ps keyValues)
  then show ?case by (simp add: pushArray_append)
next
  case (3 key v ps keyValues)
  then show ?case by simp
qed

lemma stringify_is_specQuery: "stringifyQueryParameters ps = specQuery ps"
  by (simp add: stringifyQueryParameters_def specQuery_def collectKeyValues_append)

lemma hexChar_pct: "d < 16 \<Longrightarrow> hexChar d \<in> set pctChars"
proof -
  assume d: "d < 16"
  have "hexChar d = pctChars ! Suc d" by (simp add: hexChar_def pctChars_def)
  moreover have "Suc d < length pctChars" using d by (simp add: pctChars_def)
  ultimately show ?thesis by (metis nth_mem)
qed

lemma pctEncode_safe: "set (pctEncode c) \<subseteq> set pctChars"
proof -
  have "of_char c div 16 < (16::nat)"
    using nat_of_char_less_256 [of c] by (simp add: less_mult_imp_div_less)
  moreover have "of_char c mod 16 < (16::nat)" by simp
  moreover have "CHR ''%'' \<in> set pctChars" by (simp add: pctChars_def)
  ultimately show ?thesis
    using hexChar_pct [of "of_char c div 16"] hexChar_pct [of "of_char c mod 16"]
    by (simp add: pctEncode_def)
qed

lemma encodeChar_safe: "set (encodeChar c) \<subseteq> set uriUnreserved \<union> set pctChars"
proof (cases "c \<in> set uriUnreserved")
  case True
  then show ?thesis by (simp add: encodeChar_def)
next
  case False
  then have "encodeChar c = pctEncode c" by (simp add: encodeChar_def)
  with pctEncode_safe [of c] show ?thesis by (simp add: le_supI2)
qed

lemma encodeURIComponent_safe:
  "set (encodeURIComponent s) \<subseteq> set uriUnreserved \<union> set pctChars"
proof (induction s)
  case Nil
  show ?case by (simp add: encodeURIComponent_def)
next
  case (Cons c s)
  have "encodeURIComponent (c # s) = encodeChar c @ encodeURIComponent s"
    by (simp add: encodeURIComponent_def)
  with Cons encodeChar_safe [of c] show ?case by simp
qed

lemma showInt_1: "showInt 1 = ''1''" by (simp add: showInt_def digits.simps digitChar_def)
lemma showInt_3: "showInt 3 = ''3''" by (simp add: showInt_def digits.simps digitChar_def)
lemma showInt_10: "showInt 10 = ''10''" by (simp add: showInt_def digits.simps digitChar_def)

lemma encode_plain [simp]:
  "encodeURIComponent ''page'' = ''page''" "encodeURIComponent ''id'' = ''id''"
  "encodeURIComponent ''role'' = ''role''" "encodeURIComponent ''1'' = ''1''"
  "encodeURIComponent ''2'' = ''2''" "encodeURIComponent ''3'' = ''3''"
  "encodeURIComponent ''10'' = ''10''"
  by (simp_all add: encodeURIComponent_def encodeChar_def uriUnreserved_def)

lemma encode_special:
  "encodeURIComponent ''a&b=c d'' = ''a%26b%3Dc%20d''"
  by (simp add: encodeURIComponent_def encodeChar_def uriUnreserved_def pctEncode_def hexChar_def)

text \<open>
  C4. The query string is a function of the parameter entries alone. An array-valued
  parameter gives one \<open>key[]=value\<close> pair per element in element order, a scalar one
  gives \<open>key=value\<close>, keys and values go through \<open>encodeURIComponent\<close> (whose output
  holds only unreserved characters, \<open>%\<close> and hexadecimal digits), a parameter with no pairs
  adds nothing, and with no pair at all the result is the empty string, never a bare
  \<open>?\<close>. \<open>{page:1,id:"2"}\<close> gives \<open>?page=1&id=2\<close>, \<open>{}\<close> gives the empty string,
  \<open>{role:[3,10]}\<close> gives \<open>?role[]=3&role[]=10\<close>, and \<open>{role:[]}\<close> the empty string.
\<close>

theorem stringifyQueryParameters_serializes:
  "stringifyQueryParameters ps =
     (if concat (map specPairs ps) = [] then ''''
      else ''?'' @ join ''&'' (concat (map specPairs ps)))
   \<and> stringifyQueryParameters ps \<noteq> ''?''
   \<and> stringifyQueryParameters (ps @ [(k, Array [])] @ qs) = stringifyQueryParameters (ps @ qs)
   \<and> set (encodeURIComponent s) \<subseteq> set uriUnreserved \<union> set pctChars
   \<and> encodeURIComponent ''a&b=c d'' = ''a%26b%3Dc%20d''
   \<and> stringifyQueryParameters [(''page'', Scalar (Num 1)), (''id'', Scalar (Str ''2''))]
       = ''?page=1&id=2''
   \<and> stringifyQueryParameters [] = ''''
   \<and> stringifyQueryParameters [(''role'', Array [])] = ''''
   \<and> stringifyQueryParameters [(''role'', Array [Num 3, Num 10])] = ''?role[]=3&role[]=10''"
proof -
  have a: "stringifyQueryParameters ps =
     (if concat (map specPairs ps) = [] then ''''
      else ''?'' @ join ''&'' (concat (map specPairs ps)))"
    using stringify_is_specQuery [of ps] by (simp add: specQuery_def)
  have nonempty: "kvs \<noteq> [] \<Longrightarrow> (\<forall>x \<in> set kvs. x \<noteq> []) \<Longrightarrow> join ''&'' kvs \<noteq> []"
    for kvs :: "string list"
    by (cases "(''&'', kvs)" rule: join.cases) auto
  have pair_nonempty: "x \<in> set (specPairs p) \<Longrightarrow> x \<noteq> []" for x p
    by (cases p rule: specPairs.cases) auto
  have b: "stringifyQueryParameters ps \<noteq> ''?''"
  proof (cases "concat (map specPairs ps) = []")
    case True
    then show ?thesis by (simp add: a)
  next
    case False
    have "\<forall>x \<in> set (concat (map specPairs ps)). x \<noteq> []"
      using pair_nonempty by auto
    with False have "join ''&'' (concat (map specPairs ps)) \<noteq> []"
      by (rule nonempty)
    with False show ?thesis by (simp add: a)
  qed
  have c: "stringifyQueryParameters (ps @ [(k, Array [])] @ qs) = stringifyQueryParameters (ps @ qs)"
    by (simp add: stringify_is_specQuery specQuery_def)
  have d: "stringifyQueryParameters [(''page'', Scalar (Num 1)), (''id'', Scalar (Str ''2''))]
       = ''?page=1&id=2''"
    by (simp add: stringifyQueryParameters_def showInt_1)
  have e: "stringifyQueryParameters [] = ''''"
    by (simp add: stringifyQueryParameters_def)
  have f: "stringifyQueryParameters [(''role'', Array [])] = ''''"
    by (simp add: stringifyQueryParameters_def)
  have g: "stringifyQueryParameters [(''role'', Array [Num 3, Num 10])] = ''?role[]=3&role[]=10''"
    by (simp add: stringifyQueryParameters_def showInt_3 showInt_10)
  from a b c d e f g encodeURIComponent_safe [of s] encode_special show ?thesis
    by blast
qed

section \<open>Properties of the link header\<close>

lemma startsWith_iff: "startsWith s p \<longleftrightarrow> (\<exists>r. s = p @ r)"
  by (induction s p rule: startsWith.induct) auto

lemma endsWith_iff: "endsWith s p \<longleftrightarrow> (\<exists>q. s = q @ p)"
proof -
  have "endsWith s p \<longleftrightarrow> (\<exists>r. rev s = rev p @ r)"
    by (simp add: endsWith_def startsWith_iff)
  also have "\<dots> \<longleftrightarrow> (\<exists>q. s = q @ p)"
  proof
    assume "\<exists>r. rev s = rev p @ r"
    then obtain r where "rev s = rev p @ r" ..
    then have "s = rev r @ p" by (metis rev_append rev_rev_ident)
    then show "\<exists>q. s = q @ p" ..
  next
    assume "\<exists>q. s = q @ p"
    then obtain q where "s = q @ p" ..
    then have "rev s = rev p @ rev q" by simp
    then show "\<exists>r. rev s = rev p @ r" ..
  qed
  finally show ?thesis .
qed

lemma splitAcc_nosep:
  "sep \<notin> set x \<Longrightarrow> splitAcc sep cur (x @ rest) = splitAcc sep (cur @ x) rest"
  by (induction x arbitrary: cur) auto

lemma splitAcc_join:
  assumes "\<forall>y \<in> set (x # ys). CHR '','' \<notin> set y" and "CHR '','' \<notin> set pad"
  shows "splitAcc (CHR '','') cur (join (CHR '','' # pad) (x # ys))
         = (cur @ x) # map (\<lambda>y. pad @ y) ys"
  using assms(1)
proof (induction ys arbitrary: x cur)
  case Nil
  then show ?case using splitAcc_nosep [of "CHR '',''" x cur "[]"] by simp
next
  case (Cons y ys)
  have x: "CHR '','' \<notin> set x" using Cons.prems by simp
  have "splitAcc (CHR '','') cur (join (CHR '','' # pad) (x # y # ys))
        = splitAcc (CHR '','') (cur @ x) (CHR '','' # pad @ join (CHR '','' # pad) (y # ys))"
    using splitAcc_nosep [OF x] by simp
  also have "\<dots> = (cur @ x) # splitAcc (CHR '','') [] (pad @ join (CHR '','' # pad) (y # ys))"
    by simp
  also have "\<dots> = (cur @ x) # splitAcc (CHR '','') pad (join (CHR '','' # pad) (y # ys))"
    using splitAcc_nosep [OF assms(2), of "[]"] by simp
  also have "\<dots> = (cur @ x) # (pad @ y) # map (\<lambda>y. pad @ y) ys"
    using Cons.IH [of y pad] Cons.prems by simp
  finally show ?case by simp
qed

lemma takeWhile_until: "q \<notin> set a \<Longrightarrow> takeWhile (\<lambda>c. c \<noteq> q) (a @ q # b) = a"
  by (induction a) auto

lemma relNext_exact:
  assumes "CHR 0x22 \<notin> set (entryRel e)"
  shows "searchRelNext (p @ renderEntry e) \<longleftrightarrow> entryRel e = ''next''"
proof
  assume "entryRel e = ''next''"
  then have "p @ renderEntry e = (p @ ''<'' @ entryUrl e @ ''>; '') @ relNext"
    by (simp add: renderEntry_def relNext_def)
  then show "searchRelNext (p @ renderEntry e)"
    unfolding searchRelNext_def endsWith_iff by blast
next
  assume "searchRelNext (p @ renderEntry e)"
  then obtain q where q: "p @ renderEntry e = q @ relNext"
    unfolding searchRelNext_def endsWith_iff by blast
  let ?P = "\<lambda>c. c \<noteq> CHR 0x22"
  have l: "rev (p @ renderEntry e)
           = [CHR 0x22] @ rev (entryRel e) @ (CHR 0x22 # rev (p @ ''<'' @ entryUrl e @ ''>; rel=''))"
    by (simp add: renderEntry_def)
  have r: "rev (q @ relNext) = [CHR 0x22] @ rev ''next'' @ (CHR 0x22 # rev (q @ ''rel=''))"
    by (simp add: relNext_def)
  have "takeWhile ?P (tl (rev (p @ renderEntry e))) = rev (entryRel e)"
    unfolding l using assms takeWhile_until [of "CHR 0x22" "rev (entryRel e)"] by simp
  moreover have "takeWhile ?P (tl (rev (q @ relNext))) = rev ''next''"
    unfolding r by simp
  ultimately have "rev (entryRel e) = rev ''next''" using q by simp
  then show "entryRel e = ''next''" using rev_is_rev_conv by blast
qed

lemma lazyUpToGt_url:
  "list_all (\<lambda>c. c \<noteq> CHR ''>'' \<and> \<not> lineTerminator c) u
   \<Longrightarrow> lazyUpToGt acc (u @ CHR ''>'' # rest) = Some (acc @ u)"
  by (induction u arbitrary: acc) auto

lemma matchAngle_url:
  assumes "CHR ''<'' \<notin> set p"
    and "list_all (\<lambda>c. c \<noteq> CHR ''>'' \<and> \<not> lineTerminator c) u"
  shows "matchAngle (p @ CHR ''<'' # u @ CHR ''>'' # rest) = Some u"
  using assms(1)
proof (induction p)
  case Nil
  show ?case using lazyUpToGt_url [OF assms(2), of "[]" rest] by simp
next
  case (Cons c p)
  then show ?case by auto
qed

lemma matchAngle_entry:
  assumes "CHR ''<'' \<notin> set p" and "wfEntry e"
  shows "matchAngle (p @ renderEntry e) = Some (entryUrl e)"
proof -
  have "list_all (\<lambda>c. c \<noteq> CHR ''>'' \<and> \<not> lineTerminator c) (entryUrl e)"
    using assms(2) by (auto simp add: wfEntry_def list_all_iff)
  from matchAngle_url [OF assms(1) this]
  show ?thesis by (simp add: renderEntry_def)
qed

lemma find_segments:
  assumes "list_all2 (\<lambda>seg e. \<exists>p. CHR ''<'' \<notin> set p \<and> seg = p @ renderEntry e) segs es"
    and "list_all wfEntry es"
  shows "(case find searchRelNext segs of None \<Rightarrow> None | Some l \<Rightarrow> matchAngle l)
         = specNextUrl es"
  using assms
proof (induction segs es rule: list_all2_induct)
  case Nil
  show ?case by (simp add: specNextUrl_def)
next
  case (Cons seg segs e es)
  from Cons.hyps(1) obtain p where p: "CHR ''<'' \<notin> set p" "seg = p @ renderEntry e"
    by blast
  have wf: "wfEntry e" using Cons.prems by simp
  then have "CHR 0x22 \<notin> set (entryRel e)"
    by (auto simp add: wfEntry_def list_all_iff)
  then have s: "searchRelNext seg \<longleftrightarrow> entryRel e = ''next''"
    unfolding p(2) by (rule relNext_exact)
  show ?case
  proof (cases "entryRel e = ''next''")
    case True
    then show ?thesis
      using s matchAngle_entry [OF p(1) wf] by (simp add: p(2) specNextUrl_def)
  next
    case False
    then show ?thesis
      using s Cons.IH Cons.prems by (simp add: specNextUrl_def)
  qed
qed

lemma renderEntry_nocomma: "wfEntry e \<Longrightarrow> CHR '','' \<notin> set (renderEntry e)"
  by (auto simp add: wfEntry_def renderEntry_def list_all_iff)

lemma getNextUrl_joined:
  assumes "list_all wfEntry es" and "CHR '','' \<notin> set pad" and "CHR ''<'' \<notin> set pad"
  shows "getNextUrl (Single (join (CHR '','' # pad) (map renderEntry es))) = specNextUrl es"
proof (cases es)
  case Nil
  then show ?thesis
    by (simp add: getNextUrl_def split_def specNextUrl_def searchRelNext_def endsWith_def
        relNext_def)
next
  case (Cons e es')
  have nc: "\<forall>y \<in> set (renderEntry e # map renderEntry es'). CHR '','' \<notin> set y"
    using assms(1) renderEntry_nocomma by (auto simp add: Cons list_all_iff)
  have sp: "split (join (CHR '','' # pad) (map renderEntry es)) (CHR '','')
            = renderEntry e # map (\<lambda>y. pad @ y) (map renderEntry es')"
    unfolding split_def Cons using splitAcc_join [OF nc assms(2), of "[]"] by simp
  have "list_all2 (\<lambda>seg e. \<exists>p. CHR ''<'' \<notin> set p \<and> seg = p @ renderEntry e)
          (map (\<lambda>y. pad @ y) (map renderEntry es')) es'"
    using assms(3) by (auto simp add: list_all2_conv_all_nth)
  moreover have "\<exists>p. CHR ''<'' \<notin> set p \<and> renderEntry e = p @ renderEntry e"
    by (rule exI [of _ "[]"]) simp
  ultimately have "list_all2 (\<lambda>seg e. \<exists>p. CHR ''<'' \<notin> set p \<and> seg = p @ renderEntry e)
          (renderEntry e # map (\<lambda>y. pad @ y) (map renderEntry es')) es"
    unfolding Cons by simp
  from find_segments [OF this assms(1)] show ?thesis
    by (simp add: getNextUrl_def sp)
qed

text \<open>
  C5 (as amended). A list-valued header is joined with \<open>", "\<close> and then read as the
  single string is. For a header made of entries \<open><url>; rel="relation"\<close> separated by
  a comma (with or without a blank after it, or sent as separate values), whose URLs hold
  no comma, no \<open>>\<close> and no line terminator and whose relations hold no double quote and
  no comma, the result is the URL of the first entry whose relation is exactly \<open>next\<close>,
  and none when no entry has that relation: \<open><https://x/p2>; rel="next"\<close> gives
  \<open>https://x/p2\<close>, and \<open>prev\<close>, \<open>last\<close> or \<open>blah\<close> alone give none.
\<close>

theorem getNextUrl_wellformed_entries:
  assumes "list_all wfEntry es"
  shows \<open>getNextUrl (Single (join '','' (map renderEntry es))) = specNextUrl es
       \<and> getNextUrl (Single (join '', '' (map renderEntry es))) = specNextUrl es
       \<and> getNextUrl (Multi (map renderEntry es)) = specNextUrl es
       \<and> getNextUrl (Multi xs) = getNextUrl (Single (join '', '' xs))
       \<and> getNextUrl (Single ''<https://x/p2>; rel="next"'') = Some ''https://x/p2''
       \<and> getNextUrl (Single ''<https://x/p2>; rel="prev"'') = None
       \<and> getNextUrl (Single ''<https://x/p2>; rel="last"'') = None
       \<and> getNextUrl (Single ''<https://x/p2>; rel="blah"'') = None\<close>
proof -
  have a: "getNextUrl (Single (join '','' (map renderEntry es))) = specNextUrl es"
    using getNextUrl_joined [OF assms, of "[]"] by simp
  have b: "getNextUrl (Single (join '', '' (map renderEntry es))) = specNextUrl es"
    using getNextUrl_joined [OF assms, of "'' ''"] by simp
  have c: "getNextUrl (Multi xs) = getNextUrl (Single (join '', '' xs))" for xs
    by (simp add: getNextUrl_def)
  have d: \<open>getNextUrl (Single ''<https://x/p2>; rel="next"'') = Some ''https://x/p2''\<close>
    by (simp add: getNextUrl_def split_def searchRelNext_def endsWith_def relNext_def
        lineTerminator_def)
  have e: \<open>getNextUrl (Single ''<https://x/p2>; rel="prev"'') = None\<close>
    by (simp add: getNextUrl_def split_def searchRelNext_def endsWith_def relNext_def)
  have f: \<open>getNextUrl (Single ''<https://x/p2>; rel="last"'') = None\<close>
    by (simp add: getNextUrl_def split_def searchRelNext_def endsWith_def relNext_def)
  have g: \<open>getNextUrl (Single ''<https://x/p2>; rel="blah"'') = None\<close>
    by (simp add: getNextUrl_def split_def searchRelNext_def endsWith_def relNext_def)
  from a b c [of "map renderEntry es"] c [of xs] d e f g show ?thesis by simp
qed

theorem getNextUrl_wellformed_entries_witness:
  "list_all wfEntry [LinkEntry ''https://x/p1'' ''prev'', LinkEntry ''https://x/p2'' ''next'']
   \<and> getNextUrl (Multi (map renderEntry
         [LinkEntry ''https://x/p1'' ''prev'', LinkEntry ''https://x/p2'' ''next'']))
       = Some ''https://x/p2''"
proof -
  have h: "list_all wfEntry
     [LinkEntry ''https://x/p1'' ''prev'', LinkEntry ''https://x/p2'' ''next'']"
    by (simp add: wfEntry_def lineTerminator_def)
  have "specNextUrl [LinkEntry ''https://x/p1'' ''prev'', LinkEntry ''https://x/p2'' ''next'']
        = Some ''https://x/p2''"
    by (simp add: specNextUrl_def)
  with getNextUrl_wellformed_entries [OF h] h show ?thesis by simp
qed

text \<open>
  The claim as worded fails on a URL that holds a comma: the header
  \<open><https://x/p?ids=1,2>; rel="next"\<close> has one entry, its relation is exactly
  \<open>next\<close>, and no URL is returned, since the header is cut at every comma.
\<close>

theorem getNextUrl_comma_counterexample:
  \<open>renderEntry (LinkEntry ''https://x/p?ids=1,2'' ''next'') = ''<https://x/p?ids=1,2>; rel="next"''
   \<and> specNextUrl [LinkEntry ''https://x/p?ids=1,2'' ''next''] = Some ''https://x/p?ids=1,2''
   \<and> getNextUrl (Single ''<https://x/p?ids=1,2>; rel="next"'') = None\<close>
  by (simp add: renderEntry_def specNextUrl_def getNextUrl_def split_def searchRelNext_def
      endsWith_def relNext_def lineTerminator_def)

section \<open>Properties of the lazy sequence\<close>

lemma toArrayLoop_Done:
  "nxt s = Some (Done, s') \<Longrightarrow> toArrayLoop nxt s result = Some (Inr result, s')"
  by (subst toArrayLoop.simps) simp

lemma toArrayLoop_Throw:
  "nxt s = Some (Throw e, s') \<Longrightarrow> toArrayLoop nxt s result = Some (Inl e, s')"
  by (subst toArrayLoop.simps) simp

lemma toArrayLoop_Yield:
  "nxt s = Some (Yield v, s') \<Longrightarrow> toArrayLoop nxt s result = toArrayLoop nxt s' (result @ [v])"
  by (subst toArrayLoop.simps) simp

lemma listNext_simps:
  "listNext [] = Some (Done, [])" "listNext (x # xs) = Some (Yield x, xs)"
  by (simp_all add: listNext_def)

lemma toArrayLoop_list:
  "toArrayLoop listNext xs result = Some (Inr (result @ xs), [])"
proof (induction xs arbitrary: result)
  case Nil
  show ?case by (simp add: toArrayLoop_Done listNext_simps)
next
  case (Cons x xs)
  show ?case
    by (subst toArrayLoop.simps) (simp add: listNext_simps Cons.IH)
qed

lemma toArray_listGen: "toArray (listGen xs) = Some (Inr xs, listGen [])"
  by (simp add: toArray_def listGen_def toArrayLoop_list)

text \<open>
  C7. A sequence is single-pass. For the generator of the elements \<open>x, xs\<close>: one manual
  \<open>next()\<close> gives \<open>x\<close>, \<open>toArray()\<close> then returns exactly the remaining \<open>xs\<close> in order,
  and a further \<open>toArray()\<close> on the exhausted sequence returns the empty list; so does
  \<open>toArray()\<close> after a full \<open>toArray()\<close>, and after a pull from the empty sequence.
\<close>

theorem toArray_single_pass:
  "(case egNext (listGen (x # xs)) of None \<Rightarrow> None
    | Some (r, g1) \<Rightarrow>
      (case toArray g1 of None \<Rightarrow> None
       | Some (a, g2) \<Rightarrow>
         (case toArray g2 of None \<Rightarrow> None
          | Some (b, g3) \<Rightarrow> Some (r, a, b))))
   = Some (Yield x, Inr xs, Inr [])
   \<and> (case toArray (listGen ys) of None \<Rightarrow> None
      | Some (a, g1) \<Rightarrow>
        (case toArray g1 of None \<Rightarrow> None | Some (b, g2) \<Rightarrow> Some (a, b)))
     = Some (Inr ys, Inr [])
   \<and> (case egNext (listGen []) of None \<Rightarrow> None
      | Some (r, g1) \<Rightarrow>
        (case toArray g1 of None \<Rightarrow> None | Some (a, g2) \<Rightarrow> Some (r, a)))
     = Some (Done, Inr [])"
proof -
  have n: "egNext (listGen (x # xs)) = Some (Yield x, listGen xs)"
    by (simp add: egNext_def listGen_def listNext_simps)
  have e: "egNext (listGen []) = Some (Done, listGen [])"
    by (simp add: egNext_def listGen_def listNext_simps)
  show ?thesis by (simp add: n e toArray_listGen)
qed

lemma takeNext_zero: "takeNext gen (SuspendedStart, 0, s) = Some (Done, Completed, 0, s)"
  by (simp add: takeNext_def takeLoop_def)

lemma toArray_take_zero:
  "toArray (takeGen 0 g)
   = Some (Inr [], \<lparr>generatorNext = takeNext (generatorNext g),
                    generatorState = (Completed, 0, generatorState g)\<rparr>)"
  using toArrayLoop_Done [of "takeNext (generatorNext g)" "(SuspendedStart, 0, generatorState g)"
      "(Completed, 0, generatorState g)" "[]"]
  by (simp add: toArray_def takeGen_def takeNext_zero)

text \<open>
  C6. Draining \<open>take(0)\<close> gives the empty list without one \<open>next()\<close> call to the
  upstream producer, whatever that producer would do (settle, throw, change its state,
  or never answer): the upstream state is untouched, also when \<open>take(0)\<close> follows
  \<open>filter\<close>, whose generator is then not started, and a producer that counts its calls
  still shows none.
\<close>

theorem take_zero_never_pulls:
  "toArray (takeGen 0 g)
   = Some (Inr [], \<lparr>generatorNext = takeNext (generatorNext g),
                    generatorState = (Completed, 0, generatorState g)\<rparr>)
   \<and> toArray (takeGen 0 (filterGen predicate g))
     = Some (Inr [], \<lparr>generatorNext = takeNext (filterNext predicate (generatorNext g)),
                      generatorState = (Completed, 0, SuspendedStart, generatorState g)\<rparr>)
   \<and> toArray (takeGen 0 (filterGen predicate
         \<lparr>generatorNext = counting producer, generatorState = (0, s)\<rparr>))
     = Some (Inr [], \<lparr>generatorNext = takeNext (filterNext predicate (counting producer)),
                      generatorState = (Completed, 0, SuspendedStart, 0, s)\<rparr>)
   \<and> toArray (takeGen 0 (filterGen predicate
         \<lparr>generatorNext = (\<lambda>s. None), generatorState = s\<rparr>))
     = Some (Inr [], \<lparr>generatorNext = takeNext (filterNext predicate (\<lambda>s. None)),
                      generatorState = (Completed, 0, SuspendedStart, s)\<rparr>)
   \<and> toArray (takeGen 0 (filterGen predicate
         \<lparr>generatorNext = (\<lambda>s. Some (Throw e, s)), generatorState = s\<rparr>))
     = Some (Inr [], \<lparr>generatorNext = takeNext (filterNext predicate (\<lambda>s. Some (Throw e, s))),
                      generatorState = (Completed, 0, SuspendedStart, s)\<rparr>)"
  by (simp add: toArray_take_zero filterGen_def)

section \<open>Properties of pagination\<close>

lemma run_same_step:
  assumes "run nxt s1 vs out fin" and "nxt s2 = nxt s1"
  shows "run nxt s2 vs out fin"
  using assms by (cases rule: run.cases) (auto intro: run.intros)

lemma run_toArrayLoop:
  "run nxt s vs out fin \<Longrightarrow>
   toArrayLoop nxt s result
   = Some ((case out of None \<Rightarrow> Inr (result @ vs) | Some e \<Rightarrow> Inl e), fin)"
proof (induction arbitrary: result rule: run.induct)
  case (run_Done nxt s s')
  then show ?case by (simp add: toArrayLoop_Done)
next
  case (run_Throw nxt s e s')
  then show ?case by (simp add: toArrayLoop_Throw)
next
  case (run_Yield nxt s v s' vs out s'')
  then show ?case by (simp add: toArrayLoop_Yield split: option.splits)
qed

lemma itemsNext_start: "itemsNext pages ret (itemsStart, s) = itemsPull pages ret s"
  by (simp add: itemsNext_def itemsStart_def)

lemma itemsNext_drained:
  "itemsNext pages ret (\<lparr>itStatus = SuspendedYield, itElements = []\<rparr>, s) = itemsPull pages ret s"
  by (simp add: itemsNext_def)

lemma itemsNext_element:
  "itemsNext pages ret (\<lparr>itStatus = SuspendedYield, itElements = e # es\<rparr>, s)
   = Some (Yield e, \<lparr>itStatus = SuspendedYield, itElements = es\<rparr>, s)"
  by (simp add: itemsNext_def)

lemma run_page_elements:
  assumes "run (itemsNext pages ret) (itemsStart, s) vs out fin"
  shows "run (itemsNext pages ret) (\<lparr>itStatus = SuspendedYield, itElements = es\<rparr>, s)
           (es @ vs) out fin"
proof (induction es)
  case Nil
  show ?case
    using run_same_step [OF assms, of "(\<lparr>itStatus = SuspendedYield, itElements = []\<rparr>, s)"]
    by (simp add: itemsNext_start itemsNext_drained)
next
  case (Cons e es)
  show ?case using run_Yield [OF itemsNext_element Cons] by simp
qed

lemma itemsPull_Done:
  "pages s = Some (Done, s') \<Longrightarrow>
   itemsPull pages ret s = Some (Done, \<lparr>itStatus = Completed, itElements = []\<rparr>, s')"
  by (subst itemsPull.simps) simp

lemma itemsPull_Throw:
  "pages s = Some (Throw e, s') \<Longrightarrow>
   itemsPull pages ret s = Some (Throw e, \<lparr>itStatus = Completed, itElements = []\<rparr>, s')"
  by (subst itemsPull.simps) simp

lemma itemsPull_empty_page:
  "pages s = Some (Yield page, s') \<Longrightarrow> json page = Some (JArray []) \<Longrightarrow>
   itemsPull pages ret s = itemsPull pages ret s'"
  by (subst itemsPull.simps) simp

lemma itemsPull_element:
  "pages s = Some (Yield page, s') \<Longrightarrow> json page = Some (JArray (e # es)) \<Longrightarrow>
   itemsPull pages ret s
   = Some (Yield e, \<lparr>itStatus = SuspendedYield, itElements = es\<rparr>, s')"
  by (subst itemsPull.simps) simp

lemma itemsPull_not_array:
  "pages s = Some (Yield page, s') \<Longrightarrow> \<not> isArrayPage page \<Longrightarrow>
   itemsPull pages ret s
   = Some (Throw (CanvasApiPaginationError page),
           \<lparr>itStatus = Completed, itElements = []\<rparr>, ret s')"
  by (subst itemsPull.simps)
    (auto simp add: isArrayPage_def split: option.splits json.splits)

lemma listItems_run:
  assumes "run pages s ps out s'"
  shows "\<exists>fin. run (itemsNext pages ret) (itemsStart, s)
           (concat (map pageElements (takeWhile isArrayPage ps)))
           (case dropWhile isArrayPage ps of
              [] \<Rightarrow> out
            | bad # rest \<Rightarrow> Some (CanvasApiPaginationError bad))
           fin"
  using assms
proof (induction rule: run.induct)
  case (run_Done nxt s s')
  have "run (itemsNext nxt ret) (itemsStart, s) [] None
          (\<lparr>itStatus = Completed, itElements = []\<rparr>, s')"
    using itemsPull_Done [of nxt s s' ret] run_Done
    by (intro run.run_Done) (simp add: itemsNext_start)
  then show ?case by auto
next
  case (run_Throw nxt s e s')
  have "run (itemsNext nxt ret) (itemsStart, s) [] (Some e)
          (\<lparr>itStatus = Completed, itElements = []\<rparr>, s')"
    using itemsPull_Throw [of nxt s e s' ret] run_Throw
    by (intro run.run_Throw) (simp add: itemsNext_start)
  then show ?case by auto
next
  case (run_Yield nxt s page s1 ps out s2)
  show ?case
  proof (cases "isArrayPage page")
    case False
    have "run (itemsNext nxt ret) (itemsStart, s) [] (Some (CanvasApiPaginationError page))
            (\<lparr>itStatus = Completed, itElements = []\<rparr>, ret s1)"
      using itemsPull_not_array [of nxt s page s1 ret] run_Yield.hyps(1) False
      by (intro run.run_Throw) (simp add: itemsNext_start)
    with False show ?thesis by auto
  next
    case True
    then obtain es where es: "json page = Some (JArray es)"
      by (auto simp add: isArrayPage_def split: option.splits json.splits)
    then have pe: "pageElements page = es" by (simp add: pageElements_def)
    from run_Yield.IH obtain fin where
      fin: "run (itemsNext nxt ret) (itemsStart, s1)
              (concat (map pageElements (takeWhile isArrayPage ps)))
              (case dropWhile isArrayPage ps of
                 [] \<Rightarrow> out
               | bad # rest \<Rightarrow> Some (CanvasApiPaginationError bad)) fin"
      by blast
    have "run (itemsNext nxt ret) (itemsStart, s)
            (es @ concat (map pageElements (takeWhile isArrayPage ps)))
            (case dropWhile isArrayPage ps of
               [] \<Rightarrow> out
             | bad # rest \<Rightarrow> Some (CanvasApiPaginationError bad)) fin"
    proof (cases es)
      case Nil
      have "itemsNext nxt ret (itemsStart, s) = itemsNext nxt ret (itemsStart, s1)"
        using itemsPull_empty_page [of nxt s page s1 ret] run_Yield.hyps(1) es Nil
        by (simp add: itemsNext_start)
      from run_same_step [OF fin this] show ?thesis by (simp add: Nil)
    next
      case (Cons e rest)
      have "itemsNext nxt ret (itemsStart, s)
            = Some (Yield e, \<lparr>itStatus = SuspendedYield, itElements = rest\<rparr>, s1)"
        using itemsPull_element [of nxt s page s1 e rest ret] run_Yield.hyps(1) es Cons
        by (simp add: itemsNext_start)
      from run.run_Yield [OF this run_page_elements [OF fin, of rest]]
      show ?thesis by (simp add: Cons)
    qed
    then have "run (itemsNext nxt ret) (itemsStart, s)
            (concat (map pageElements (takeWhile isArrayPage (page # ps))))
            (case dropWhile isArrayPage (page # ps) of
               [] \<Rightarrow> out
             | bad # rest \<Rightarrow> Some (CanvasApiPaginationError bad)) fin"
      using True pe by simp
    then show ?thesis by (rule exI)
  qed
qed

lemma test_requests:
  "CanvasApi_request testClient ''courses/page1'' ''GET'' (Some []) () = Some (Inr testPage1, ())"
  "CanvasApi_request testClient ''https://canvas.local/courses/page2'' ''GET'' (Some []) ()
   = Some (Inr testPage2, ())"
  "CanvasApi_request testClient ''single'' ''GET'' (Some []) () = Some (Inr testSingle, ())"
  by (simp_all add: CanvasApi_request_def testClient_def testResolveUrl_def testPool_def
      stringifyQueryParameters_def settleResponse_def parseBody_def testJsonParse_def
      testPage1_def testPage2_def testSingle_def)

lemma test_nextLinks:
  "nextLink testPage1 = Some ''https://canvas.local/courses/page2''"
  "nextLink testPage2 = None" "nextLink testSingle = None"
  "nextLink testAssignments1 = Some ''https://canvas.local/assignments/page2?other=2''"
  by (simp_all add: nextLink_def testPage1_def testPage2_def testSingle_def testAssignments1_def
      getNextUrl_def split_def searchRelNext_def endsWith_def relNext_def lineTerminator_def)


lemma pagesNext_first:
  "pagesNext t endpoint (pagesStart queryParams, w)
   = pagesLoop t ((pagesStart queryParams)\<lparr>pgUrl := Some endpoint\<rparr>) w"
  by (simp add: pagesNext_def pagesStart_def)

lemma pagesNext_resumed:
  "pgStatus loc = SuspendedYield \<Longrightarrow> pgResponse loc = Some r \<Longrightarrow>
   pagesNext t endpoint (loc, w) = pagesLoop t (loc\<lparr>pgUrl := nextLink r, pgQueryParams := []\<rparr>) w"
  by (simp add: pagesNext_def)

lemma request_logged:
  assumes "resolveUrl t u = Inr target"
    and "transport (target @ stringifyQueryParameters ps) verb w = Some (outcome, w')"
  shows "CanvasApi_request (t\<lparr>send := logged transport\<rparr>) u verb (Some ps) (log, w)
         = Some (settleResponse (jsonParse t) outcome,
                 log @ [(verb, target @ stringifyQueryParameters ps)], w')"
  using assms by (simp add: CanvasApi_request_def logged_def)

lemma pagesLoop_logged:
  assumes "pgUrl loc = Some u" and "u \<noteq> []" and "resolveUrl t u = Inr target"
    and "transport (target @ stringifyQueryParameters (pgQueryParams loc)) ''GET'' w
         = Some (outcome, w')"
  shows "\<exists>res loc'. pagesLoop (t\<lparr>send := logged transport\<rparr>) loc (log, w)
           = Some (res, loc',
                   log @ [(''GET'', target @ stringifyQueryParameters (pgQueryParams loc))], w')
         \<and> pgQueryParams loc' = pgQueryParams loc"
proof -
  have req: "CanvasApi_request (t\<lparr>send := logged transport\<rparr>) u ''GET''
               (Some (pgQueryParams loc)) (log, w)
             = Some (settleResponse (jsonParse t) outcome,
                     log @ [(''GET'', target @ stringifyQueryParameters (pgQueryParams loc))], w')"
    using assms(3,4)
      request_logged [where t = t and u = u and target = target and transport = transport
        and ps = "pgQueryParams loc" and verb = "''GET''" and w = w and outcome = outcome
        and w' = w' and log = log]
    by simp
  show ?thesis
  proof (cases "settleResponse (jsonParse t) outcome")
    case (Inl err)
    then show ?thesis using assms(1,2) req by (simp add: pagesLoop_def)
  next
    case (Inr response)
    then show ?thesis using assms(1,2) req by (simp add: pagesLoop_def)
  qed
qed


lemma test_courses_run:
  "\<exists>fin. run (pagesNext testClient ''courses/page1'') (pagesStart [], ())
           [testPage1, testPage2] None fin"
  apply (rule exI)
  apply (rule run_Yield)
   apply (simp add: pagesNext_def pagesLoop_def pagesStart_def test_requests)
  apply (rule run_Yield)
   apply (simp add: pagesNext_def pagesLoop_def test_requests test_nextLinks)
  apply (rule run_Done)
  apply (simp add: pagesNext_def pagesLoop_def test_requests test_nextLinks)
  done

lemma test_single_run:
  "\<exists>fin. run (pagesNext testClient ''single'') (pagesStart [], ()) [testSingle] None fin"
  apply (rule exI)
  apply (rule run_Yield)
   apply (simp add: pagesNext_def pagesLoop_def pagesStart_def test_requests)
  apply (rule run_Done)
  apply (simp add: pagesNext_def pagesLoop_def test_requests test_nextLinks)
  done

lemma test_pages:
  "isArrayPage testPage1" "isArrayPage testPage2" "\<not> isArrayPage testSingle"
  "pageElements testPage1 = [JNumber 1, JNumber 2, JNumber 3]"
  "pageElements testPage2 = [JNumber 4, JNumber 5]"
  by (simp_all add: isArrayPage_def pageElements_def testPage1_def testPage2_def testSingle_def)

lemma toArray_of_run:
  assumes "run (generatorNext g) (generatorState g) vs out fin"
  shows "map_option fst (toArray g)
         = Some (case out of None \<Rightarrow> Inr vs | Some e \<Rightarrow> Inl e)"
  using run_toArrayLoop [OF assms, of "[]"] by (simp add: toArray_def split: option.splits)

lemma toArray_of_run_rec:
  assumes "run nxt s vs out fin"
  shows "map_option fst (toArray \<lparr>generatorNext = nxt, generatorState = s\<rparr>)
         = Some (case out of None \<Rightarrow> Inr vs | Some e \<Rightarrow> Inl e)"
  using toArray_of_run [of "\<lparr>generatorNext = nxt, generatorState = s\<rparr>" vs out fin] assms
  by simp

lemma run_listNext: "run listNext xs xs None []"
proof (induction xs)
  case Nil
  show ?case by (rule run_Done) (simp add: listNext_simps)
next
  case (Cons x xs)
  show ?case by (rule run_Yield [OF _ Cons]) (simp add: listNext_simps)
qed

text \<open>
  C3. Whatever pages the page sequence produces (\<open>ps\<close>, then its end \<open>out\<close>):
  \<open>listItems\<close>' generator yields, in order, every element of every page up to the first
  page whose parsed body is not a list, and at that page it fails with
  \<open>CanvasApiPaginationError\<close> carrying that page; with no such page it yields all
  elements and ends as the page sequence ends. So \<open>toArray()\<close> returns the concatenated
  lists or is rejected with that error. For the two-page resource \<open>[1,2,3]\<close>, \<open>[4,5]\<close>
  linked by \<open>rel="next"\<close> the result is \<open>[1,2,3,4,5]\<close>, and for an endpoint answering a
  single object it is the \<open>CanvasApiPaginationError\<close>.
\<close>

theorem listItems_yields_page_elements:
  assumes "run pages s ps out s'"
  shows "(\<exists>fin. run (itemsNext pages ret) (itemsStart, s)
            (concat (map pageElements (takeWhile isArrayPage ps)))
            (case dropWhile isArrayPage ps of
               [] \<Rightarrow> out
             | bad # rest \<Rightarrow> Some (CanvasApiPaginationError bad))
            fin)
       \<and> map_option fst
           (toArray \<lparr>generatorNext = itemsNext pages ret, generatorState = (itemsStart, s)\<rparr>)
         = Some (case dropWhile isArrayPage ps of
                   [] \<Rightarrow> (case out of None \<Rightarrow> Inr (concat (map pageElements ps))
                          | Some e \<Rightarrow> Inl e)
                 | bad # rest \<Rightarrow> Inl (CanvasApiPaginationError bad))
       \<and> map_option fst (toArray (CanvasApi_listItems testClient ''courses/page1'' [] ()))
         = Some (Inr [JNumber 1, JNumber 2, JNumber 3, JNumber 4, JNumber 5])
       \<and> map_option fst (toArray (CanvasApi_listItems testClient ''single'' [] ()))
         = Some (Inl (CanvasApiPaginationError testSingle))"
proof -
  have general: "\<exists>fin. run (itemsNext pages ret) (itemsStart, s)
            (concat (map pageElements (takeWhile isArrayPage ps)))
            (case dropWhile isArrayPage ps of
               [] \<Rightarrow> out
             | bad # rest \<Rightarrow> Some (CanvasApiPaginationError bad))
            fin"
    if "run pages s ps out s'" for pages :: "('s, CanvasApiResponse, CanvasApiError) nextFn"
      and s ps out s' and ret :: "'s \<Rightarrow> 's"
    using that by (rule listItems_run)
  have collected: "map_option fst
           (toArray \<lparr>generatorNext = itemsNext pages ret, generatorState = (itemsStart, s)\<rparr>)
         = Some (case dropWhile isArrayPage ps of
                   [] \<Rightarrow> (case out of None \<Rightarrow> Inr (concat (map pageElements ps))
                          | Some e \<Rightarrow> Inl e)
                 | bad # rest \<Rightarrow> Inl (CanvasApiPaginationError bad))"
    if r: "run pages s ps out s'" for pages :: "('s, CanvasApiResponse, CanvasApiError) nextFn"
      and s ps out s' and ret :: "'s \<Rightarrow> 's"
  proof -
    from listItems_run [OF r, of ret] obtain fin where
      "run (itemsNext pages ret) (itemsStart, s)
         (concat (map pageElements (takeWhile isArrayPage ps)))
         (case dropWhile isArrayPage ps of
            [] \<Rightarrow> out
          | bad # rest \<Rightarrow> Some (CanvasApiPaginationError bad)) fin"
      by blast
    from toArray_of_run_rec [OF this]
    have t: "map_option fst
           (toArray \<lparr>generatorNext = itemsNext pages ret, generatorState = (itemsStart, s)\<rparr>)
         = Some (case (case dropWhile isArrayPage ps of
                         [] \<Rightarrow> out
                       | bad # rest \<Rightarrow> Some (CanvasApiPaginationError bad)) of
                   None \<Rightarrow> Inr (concat (map pageElements (takeWhile isArrayPage ps)))
                 | Some e \<Rightarrow> Inl e)" .
    show ?thesis
    proof (cases "dropWhile isArrayPage ps")
      case Nil
      then have tw: "takeWhile isArrayPage ps = ps"
        using takeWhile_dropWhile_id [of isArrayPage ps] by simp
      show ?thesis using t by (simp only: Nil tw list.case)
    next
      case (Cons bad rest)
      show ?thesis using t by (simp only: Cons list.case option.case)
    qed
  qed
  have courses: "map_option fst (toArray (CanvasApi_listItems testClient ''courses/page1'' [] ()))
         = Some (Inr [JNumber 1, JNumber 2, JNumber 3, JNumber 4, JNumber 5])"
  proof -
    from test_courses_run obtain fin where
      "run (pagesNext testClient ''courses/page1'') (pagesStart [], ())
         [testPage1, testPage2] None fin" ..
    from collected [OF this, of pagesReturn] show ?thesis
      by (simp add: CanvasApi_listItems_def test_pages)
  qed
  have single: "map_option fst (toArray (CanvasApi_listItems testClient ''single'' [] ()))
         = Some (Inl (CanvasApiPaginationError testSingle))"
  proof -
    from test_single_run obtain fin where
      "run (pagesNext testClient ''single'') (pagesStart [], ()) [testSingle] None fin" ..
    from collected [OF this, of pagesReturn] show ?thesis
      by (simp add: CanvasApi_listItems_def test_pages)
  qed
  from general [OF assms, of ret] collected [OF assms, of ret] courses single
  show ?thesis by blast
qed

theorem listItems_yields_page_elements_witness:
  "run listNext [testPage1, testSingle, testPage2] [testPage1, testSingle, testPage2] None []
   \<and> (\<exists>fin. run (itemsNext listNext id) (itemsStart, [testPage1, testSingle, testPage2])
          [JNumber 1, JNumber 2, JNumber 3] (Some (CanvasApiPaginationError testSingle)) fin)"
proof -
  have h: "run listNext [testPage1, testSingle, testPage2]
             [testPage1, testSingle, testPage2] None []"
    by (rule run_listNext)
  from listItems_yields_page_elements [OF h, of id] h show ?thesis
    by (simp add: test_pages)
qed

lemma showInt_2: "showInt 2 = ''2''" by (simp add: showInt_def digits.simps digitChar_def)

lemma stringify_empty: "stringifyQueryParameters [] = []"
  by (simp add: stringifyQueryParameters_def)

lemma test_arg_query: "stringifyQueryParameters [(''arg'', Scalar (Num 1))] = ''?arg=1''"
  by (simp add: stringifyQueryParameters_def showInt_1 encodeURIComponent_def encodeChar_def
      uriUnreserved_def)

lemma test_logged_requests:
  "CanvasApi_request testLoggedClient ''assignments/page1'' ''GET''
     (Some [(''arg'', Scalar (Num 1))]) (log, ())
   = Some (Inr testAssignments1,
           log @ [(''GET'', ''https://canvas.local/assignments/page1?arg=1'')], ())"
  "CanvasApi_request testLoggedClient ''https://canvas.local/assignments/page2?other=2'' ''GET''
     (Some []) (log, ())
   = Some (Inr testPage2,
           log @ [(''GET'', ''https://canvas.local/assignments/page2?other=2'')], ())"
  by (simp_all add: CanvasApi_request_def testLoggedClient_def logged_def testResolveUrl_def
      testPool_def test_arg_query stringify_empty settleResponse_def parseBody_def
      testJsonParse_def testAssignments1_def testPage2_def)
  
lemma test_assignments_run:
  "run (pagesNext testLoggedClient ''assignments/page1'')
     (pagesStart [(''arg'', Scalar (Num 1))], [], ())
     [testAssignments1, testPage2] None
     (\<lparr>pgStatus = Completed, pgUrl = None, pgQueryParams = [], pgResponse = Some testPage2\<rparr>,
      [(''GET'', ''https://canvas.local/assignments/page1?arg=1''),
       (''GET'', ''https://canvas.local/assignments/page2?other=2'')], ())"
  apply (rule run_Yield)
   apply (simp add: pagesNext_def pagesLoop_def pagesStart_def test_logged_requests)
  apply (rule run_Yield)
   apply (simp add: pagesNext_def pagesLoop_def test_logged_requests test_nextLinks)
  apply (rule run_Done)
  apply (simp add: pagesNext_def pagesLoop_def test_logged_requests test_nextLinks)
  done

text \<open>
  C9. With a transport that logs what it is asked to send: the first \<open>next()\<close> of a
  \<open>listPages\<close> traversal requests the resolved endpoint followed by the query string of
  the supplied parameters; a \<open>next()\<close> after a page \<open>r\<close> was yielded requests exactly the
  resolved URL of \<open>r\<close>'s \<open>next\<close> link, with nothing appended, whatever the supplied
  parameters were: the call made is \<open>_request\<close> of that URL with empty parameters, and
  from then on the generator's parameters are empty. In the test
  pool, \<open>assignments/page1\<close> with \<open>{arg: 1}\<close> is requested as \<open>...page1?arg=1\<close> and
  its linked page as \<open>...page2?other=2\<close>.
\<close>

theorem listPages_query_only_first:
  assumes "resolveUrl t endpoint = Inr base" and "endpoint \<noteq> []"
    and "transport (base @ stringifyQueryParameters queryParams) ''GET'' w = Some (outcome, w')"
    and "pgStatus loc = SuspendedYield" and "pgResponse loc = Some r"
    and "nextLink r = Some u" and "u \<noteq> []" and "resolveUrl t u = Inr target"
    and "transport target ''GET'' w2 = Some (outcome2, w2')"
  shows "map_option (snd \<circ> snd)
           (pagesNext (t\<lparr>send := logged transport\<rparr>) endpoint (pagesStart queryParams, log, w))
         = Some (log @ [(''GET'', base @ stringifyQueryParameters queryParams)], w')
       \<and> map_option (snd \<circ> snd)
           (pagesNext (t\<lparr>send := logged transport\<rparr>) endpoint (loc, log2, w2))
         = Some (log2 @ [(''GET'', target)], w2')
       \<and> map_option (pgQueryParams \<circ> fst \<circ> snd)
           (pagesNext (t\<lparr>send := logged transport\<rparr>) endpoint (loc, log2, w2))
         = Some []
       \<and> pagesNext t endpoint (loc, w3)
         = pagesLoop t (loc\<lparr>pgUrl := Some u, pgQueryParams := []\<rparr>) w3
       \<and> map_option (fst \<circ> snd \<circ> generatorState \<circ> snd)
           (toArray (CanvasApi_listPages testLoggedClient ''assignments/page1''
                       [(''arg'', Scalar (Num 1))] ([], ())))
         = Some [(''GET'', ''https://canvas.local/assignments/page1?arg=1''),
                 (''GET'', ''https://canvas.local/assignments/page2?other=2'')]"
proof -
  let ?t = "t\<lparr>send := logged transport\<rparr>"
  let ?first = "(pagesStart queryParams)\<lparr>pgUrl := Some endpoint\<rparr>"
  have pf: "pgQueryParams ?first = queryParams" "pgUrl ?first = Some endpoint"
    by (simp_all add: pagesStart_def)
  have rt: "resolveUrl ?t = resolveUrl t" by simp
  obtain res loc' where
    first: "pagesLoop ?t ?first (log, w)
            = Some (res, loc', log @ [(''GET'', base @ stringifyQueryParameters queryParams)], w')"
    using pagesLoop_logged [where t = t and loc = ?first and u = endpoint and target = base
        and transport = transport and w = w and outcome = outcome and w' = w' and log = log]
      assms(1,2,3) pf
    by auto
  have a: "map_option (snd \<circ> snd) (pagesNext ?t endpoint (pagesStart queryParams, log, w))
         = Some (log @ [(''GET'', base @ stringifyQueryParameters queryParams)], w')"
    unfolding pagesNext_first first by simp
  let ?later = "loc\<lparr>pgUrl := nextLink r, pgQueryParams := []\<rparr>"
  have pl: "pgQueryParams ?later = []" "pgUrl ?later = Some u"
    using assms(6) by simp_all
  obtain res2 loc2 where
    later: "pagesLoop ?t ?later (log2, w2) = Some (res2, loc2, log2 @ [(''GET'', target)], w2')"
      and lq: "pgQueryParams loc2 = []"
    using pagesLoop_logged [where t = t and loc = ?later and u = u and target = target
        and transport = transport and w = w2 and outcome = outcome2 and w' = w2' and log = log2]
      assms(7,8,9) pl
    by (auto simp add: stringify_empty)
  have b: "map_option (snd \<circ> snd) (pagesNext ?t endpoint (loc, log2, w2))
                  = Some (log2 @ [(''GET'', target)], w2')
                \<and> map_option (pgQueryParams \<circ> fst \<circ> snd) (pagesNext ?t endpoint (loc, log2, w2))
                  = Some []"
    unfolding pagesNext_resumed [OF assms(4,5)] later using lq by simp
  have c: "map_option (fst \<circ> snd \<circ> generatorState \<circ> snd)
           (toArray (CanvasApi_listPages testLoggedClient ''assignments/page1''
                       [(''arg'', Scalar (Num 1))] ([], ())))
         = Some [(''GET'', ''https://canvas.local/assignments/page1?arg=1''),
                 (''GET'', ''https://canvas.local/assignments/page2?other=2'')]"
    using run_toArrayLoop [OF test_assignments_run, of "[]"]
    by (simp add: toArray_def CanvasApi_listPages_def)
  have d: "pagesNext t endpoint (loc, w3)
           = pagesLoop t (loc\<lparr>pgUrl := Some u, pgQueryParams := []\<rparr>) w3"
    using pagesNext_resumed [OF assms(4,5), of t endpoint w3] assms(6) by simp
  from a b c d show ?thesis by simp
qed

theorem listPages_query_only_first_witness:
  "map_option (snd \<circ> snd)
     (pagesNext (testLoggedClient\<lparr>send := logged testPool\<rparr>) ''assignments/page1''
        (pagesStart [(''arg'', Scalar (Num 1))], [], ()))
   = Some ([(''GET'', ''https://canvas.local/assignments/page1?arg=1'')], ())
   \<and> map_option (snd \<circ> snd)
     (pagesNext (testLoggedClient\<lparr>send := logged testPool\<rparr>) ''assignments/page1''
        (\<lparr>pgStatus = SuspendedYield, pgUrl = Some ''assignments/page1'',
          pgQueryParams = [(''arg'', Scalar (Num 1))], pgResponse = Some testAssignments1\<rparr>,
         [(''GET'', ''https://canvas.local/assignments/page1?arg=1'')], ()))
   = Some ([(''GET'', ''https://canvas.local/assignments/page1?arg=1''),
            (''GET'', ''https://canvas.local/assignments/page2?other=2'')], ())"
proof -
  have h1: "resolveUrl testLoggedClient ''assignments/page1'' = Inr ''https://canvas.local/assignments/page1''"
    by (simp add: testLoggedClient_def testResolveUrl_def)
  have h2: "''assignments/page1'' \<noteq> []" by simp
  have h3: "\<exists>outcome. testPool (''https://canvas.local/assignments/page1''
              @ stringifyQueryParameters [(''arg'', Scalar (Num 1))]) ''GET'' ()
            = Some (outcome, ())"
    by (simp add: test_arg_query testPool_def)
  have h8: "resolveUrl testLoggedClient ''https://canvas.local/assignments/page2?other=2''
            = Inr ''https://canvas.local/assignments/page2?other=2''"
    by (simp add: testLoggedClient_def testResolveUrl_def)
  have h9: "\<exists>outcome. testPool ''https://canvas.local/assignments/page2?other=2'' ''GET'' ()
            = Some (outcome, ())"
    by (simp add: testPool_def)
  from h3 obtain o1 where o1: "testPool (''https://canvas.local/assignments/page1''
              @ stringifyQueryParameters [(''arg'', Scalar (Num 1))]) ''GET'' () = Some (o1, ())" ..
  from h9 obtain o2 where
    o2: "testPool ''https://canvas.local/assignments/page2?other=2'' ''GET'' () = Some (o2, ())" ..
  let ?loc = "\<lparr>pgStatus = SuspendedYield, pgUrl = Some ''assignments/page1'',
          pgQueryParams = [(''arg'', Scalar (Num 1))], pgResponse = Some testAssignments1\<rparr>"
  have "pgStatus ?loc = SuspendedYield" "pgResponse ?loc = Some testAssignments1"
    and "''https://canvas.local/assignments/page2?other=2'' \<noteq> []"
    by simp_all
  note hyps = h1 h2 o1 this test_nextLinks(4) h8 o2
  from listPages_query_only_first
    [where t = testLoggedClient and endpoint = "''assignments/page1''"
      and base = "''https://canvas.local/assignments/page1''" and transport = testPool
      and queryParams = "[(''arg'', Scalar (Num 1))]" and w = "()" and outcome = o1
      and w' = "()" and loc = ?loc and r = testAssignments1
      and u = "''https://canvas.local/assignments/page2?other=2''"
      and target = "''https://canvas.local/assignments/page2?other=2''"
      and ?w2.0 = "()" and ?outcome2.0 = o2 and w2' = "()" and log = "[]"
      and ?log2.0 = "[(''GET'', ''https://canvas.local/assignments/page1?arg=1'')]",
      OF hyps(1,2,3,4,5,7,6,8,9)]
  show ?thesis by (simp add: test_arg_query)
qed

section \<open>Properties of the rate limiter\<close>

lemma exec_Nil [simp]: "exec [] st = st"
  by (simp add: exec_def)

lemma exec_Cons [simp]: "exec (e # es) st = exec es (step st e)"
  by (simp add: exec_def)

lemma exec_append: "exec (es @ fs) st = exec fs (exec es st)"
  by (simp add: exec_def)

lemma exec_invariant:
  assumes "P st" and "\<And>st e. P st \<Longrightarrow> P (step st e)"
  shows "P (exec es st)"
  using assms(1) by (induction es arbitrary: st) (simp_all add: assms(2))

lemma workLoop_preserves:
  assumes "\<And>st. P st \<Longrightarrow> P (st\<lparr>isIdle := True\<rparr>)"
    and "\<And>now st. P st \<Longrightarrow> pendingWorkItems st \<noteq> [] \<Longrightarrow> P (dispatchHead now st)"
    and "P st"
  shows "P (workLoop now st)"
  using assms(3)
proof (induction now st rule: workLoop.induct)
  case (1 now st)
  show ?case
  proof (cases "pendingWorkItems st = []")
    case True
    then show ?thesis using 1 assms(1) by (subst workLoop.simps) simp
  next
    case False
    show ?thesis
    proof (cases "nextDelay st > 0")
      case True
      with False show ?thesis using 1 by (subst workLoop.simps) simp
    next
      case d: False
      have "P (workLoop now (dispatchHead now st))"
        using "1.IH" [OF False d] assms(2) [OF "1.prems" False] by simp
      with False d show ?thesis by (subst workLoop.simps) simp
    qed
  qed
qed

text \<open>What the settled promises are is not changed by the loop.\<close>

lemma dispatchHead_fields:
  "settlements (dispatchHead now st) = settlements st"
  "promises (dispatchHead now st) = promises st"
  "limitIntervalMs (dispatchHead now st) = limitIntervalMs st"
  by (simp_all add: dispatchHead_def checkAndResetInterval_def Let_def split: list.splits)

lemma dispatchHead_Cons:
  "pendingWorkItems st = item # rest \<Longrightarrow>
   pendingWorkItems (dispatchHead now st) = rest
   \<and> inFlight (dispatchHead now st) = inFlight st @ [item]
   \<and> dispatched (dispatchHead now st) = dispatched st @ [item]"
  by (simp add: dispatchHead_def checkAndResetInterval_def Let_def)

lemma workLoop_settlements: "settlements (workLoop now st) = settlements st"
proof -
  have "settlements (workLoop now st) = settlements st \<and> promises (workLoop now st) = promises st"
    (is "?P (workLoop now st)")
    by (rule workLoop_preserves [where P = "\<lambda>s. settlements s = settlements st \<and> promises s = promises st"])
      (simp_all add: dispatchHead_fields)
  then show ?thesis by simp
qed

lemma workLoop_promises: "promises (workLoop now st) = promises st"
  by (rule workLoop_preserves [where P = "\<lambda>s. promises s = promises st"])
    (simp_all add: dispatchHead_fields)

subsection \<open>Retry counts stay within the ceiling\<close>

lemma retryBounded_dispatchHead:
  "retryBounded st \<Longrightarrow> retryBounded (dispatchHead now st)"
  by (auto simp add: retryBounded_def dispatchHead_def checkAndResetInterval_def Let_def
      split: list.splits)

lemma retryBounded_workLoop: "retryBounded st \<Longrightarrow> retryBounded (workLoop now st)"
  by (rule workLoop_preserves [where P = retryBounded])
    (simp_all add: retryBounded_dispatchHead, simp add: retryBounded_def)

lemma retryBounded_startWorkLoop: "retryBounded st \<Longrightarrow> retryBounded (startWorkLoop now st)"
proof -
  assume a: "retryBounded st"
  then have "retryBounded (st\<lparr>isIdle := False, intervalPeriodStart := now\<rparr>)"
    by (simp add: retryBounded_def)
  then show ?thesis using a by (simp add: startWorkLoop_def retryBounded_workLoop)
qed

lemma retryBounded_settle: "retryBounded st \<Longrightarrow> retryBounded (settle p outcome st)"
  by (simp add: retryBounded_def settle_def)

lemma retryBounded_setDelay:
  "retryBounded st \<Longrightarrow> retryBounded (setDelayToStartAtNextInterval now st)"
  by (simp add: retryBounded_def setDelayToStartAtNextInterval_def Let_def)

lemma retryBounded_resolveWith: "retryBounded st \<Longrightarrow> retryBounded (resolveWith now item res st)"
  by (simp add: resolveWith_def Let_def retryBounded_settle retryBounded_setDelay)

lemma retryBounded_requeue:
  assumes "retryBounded st" and "retryCount item < MAX_RETRIES"
  shows "retryBounded (requeue now item st)"
proof -
  have "retryBounded (st\<lparr>pendingWorkItems :=
          item\<lparr>retryCount := retryCount item + 1\<rparr> # pendingWorkItems st\<rparr>)"
    using assms by (simp add: retryBounded_def)
  then show ?thesis
    by (simp add: requeue_def retryBounded_startWorkLoop retryBounded_setDelay)
qed

lemma retryBounded_onResponse:
  "retryBounded st \<Longrightarrow> retryBounded (onResponse now item res st)"
  by (simp add: onResponse_def retryBounded_settle retryBounded_resolveWith
      retryBounded_requeue split: sum.splits)

lemma retryBounded_removeAt:
  "retryBounded st \<Longrightarrow> retryBounded (st\<lparr>inFlight := removeAt i (inFlight st)\<rparr>)"
  by (auto simp add: retryBounded_def removeAt_def list_all_iff dest: in_set_takeD in_set_dropD)

lemma retryBounded_step: "retryBounded st \<Longrightarrow> retryBounded (step st e)"
proof (cases e)
  case (Request url m)
  assume "retryBounded st"
  then show ?thesis
    by (simp add: Request request_def getCallCounter_def Let_def retryBounded_def)
next
  case (StartTick now)
  assume "retryBounded st"
  then show ?thesis by (simp add: StartTick retryBounded_startWorkLoop)
next
  case (TimerFired now)
  assume a: "retryBounded st"
  then have "retryBounded ((checkAndResetInterval now st)\<lparr>isIdle := True\<rparr>)"
    by (simp add: retryBounded_def checkAndResetInterval_def Let_def)
  then show ?thesis
    using a by (simp add: TimerFired timerFired_def retryBounded_workLoop retryBounded_dispatchHead)
next
  case (Response i res now)
  assume "retryBounded st"
  then show ?thesis
    by (simp add: Response retryBounded_onResponse retryBounded_removeAt)
next
  case (Failure i err)
  assume "retryBounded st"
  then show ?thesis
    by (simp add: Failure retryBounded_settle retryBounded_removeAt)
qed

lemma retryBounded_reachable:
  "retryBounded (exec events (rateLimitedRequestFactory limitMs))"
  by (rule exec_invariant)
    (simp_all add: retryBounded_step, simp add: retryBounded_def rateLimitedRequestFactory_def)

subsection \<open>The callback on a rate-limit rejection\<close>

lemma rateLimit_requeue:
  "isRateLimitResponse res \<Longrightarrow> retryCount item < MAX_RETRIES \<Longrightarrow>
   onResponse now item res st = requeue now item st"
  by (auto simp add: isRateLimitResponse_def onResponse_def split: sum.splits)

lemma rateLimit_reject:
  "isRateLimitResponse res \<Longrightarrow> retryCount item \<ge> MAX_RETRIES \<Longrightarrow>
   onResponse now item res st = settle (promise item) (Inl maxRetriesError) st"
  by (auto simp add: isRateLimitResponse_def onResponse_def split: sum.splits)

lemma setDelay_fields:
  "pendingWorkItems (setDelayToStartAtNextInterval now st) = pendingWorkItems st"
  "inFlight (setDelayToStartAtNextInterval now st) = inFlight st"
  "dispatched (setDelayToStartAtNextInterval now st) = dispatched st"
  "settlements (setDelayToStartAtNextInterval now st) = settlements st"
  "promises (setDelayToStartAtNextInterval now st) = promises st"
  "isIdle (setDelayToStartAtNextInterval now st) = isIdle st"
  by (simp_all add: setDelayToStartAtNextInterval_def Let_def)

lemma startWorkLoop_settlements: "settlements (startWorkLoop now st) = settlements st"
  by (simp add: startWorkLoop_def workLoop_settlements)

lemma requeue_settlements: "settlements (requeue now item st) = settlements st"
  by (simp add: requeue_def startWorkLoop_settlements setDelay_fields)

lemma workLoop_suspends:
  "pendingWorkItems st \<noteq> [] \<Longrightarrow> nextDelay st > 0 \<Longrightarrow> workLoop now st = st"
  by (subst workLoop.simps) simp

lemma workLoop_ends:
  "pendingWorkItems st = [] \<Longrightarrow> workLoop now st = st\<lparr>isIdle := True\<rparr>"
  by (subst workLoop.simps) simp

lemma workLoop_goes_on:
  "pendingWorkItems st \<noteq> [] \<Longrightarrow> \<not> nextDelay st > 0 \<Longrightarrow>
   workLoop now st = workLoop now (dispatchHead now st)"
  by (subst workLoop.simps) simp

lemma dispatch_single:
  assumes "pendingWorkItems q = [item]" and "inFlight q = []"
  shows "aloneInFlight item q ((dispatchHead now q)\<lparr>isIdle := True\<rparr>)"
    and "workLoop now (dispatchHead now q) = (dispatchHead now q)\<lparr>isIdle := True\<rparr>"
proof -
  from dispatchHead_Cons [OF assms(1), of now] assms(2)
  have d: "pendingWorkItems (dispatchHead now q) = []"
    "inFlight (dispatchHead now q) = [item]"
    "dispatched (dispatchHead now q) = dispatched q @ [item]"
    by simp_all
  then show "aloneInFlight item q ((dispatchHead now q)\<lparr>isIdle := True\<rparr>)"
    by (simp add: aloneInFlight_def dispatchHead_fields)
  from d(1) show "workLoop now (dispatchHead now q) = (dispatchHead now q)\<lparr>isIdle := True\<rparr>"
    by (rule workLoop_ends)
qed

lemma aloneInFlight_cong:
  assumes "aloneInFlight item q st'"
    and "dispatched q = dispatched st" and "settlements q = settlements st"
    and "promises q = promises st"
  shows "aloneInFlight item st st'"
  using assms by (simp add: aloneInFlight_def)

lemma timer_after_requeue:
  assumes "pendingWorkItems q = [item]" and "inFlight q = []"
  shows "aloneInFlight item q (timerFired t' (startWorkLoop t q))"
proof (cases "isIdle q")
  case False
  then have "timerFired t' (startWorkLoop t q) = (dispatchHead t' q)\<lparr>isIdle := True\<rparr>"
    using assms dispatch_single(2) [OF assms, of t']
    by (simp add: startWorkLoop_def timerFired_def)
  then show ?thesis using dispatch_single(1) [OF assms, of t'] by simp
next
  case True
  let ?q = "q\<lparr>isIdle := False, intervalPeriodStart := t\<rparr>"
  have q: "pendingWorkItems ?q = [item]" "inFlight ?q = []" using assms by simp_all
  have same: "dispatched ?q = dispatched q" "settlements ?q = settlements q"
    "promises ?q = promises q"
    by simp_all
  show ?thesis
  proof (cases "nextDelay ?q > 0")
    case True
    then have "workLoop t ?q = ?q" using q by (simp add: workLoop_suspends)
    then have "timerFired t' (startWorkLoop t q) = (dispatchHead t' ?q)\<lparr>isIdle := True\<rparr>"
      using \<open>isIdle q\<close> q dispatch_single(2) [OF q, of t']
      by (simp add: startWorkLoop_def timerFired_def)
    then show ?thesis
      using aloneInFlight_cong [OF dispatch_single(1) [OF q, of t'] same] by simp
  next
    case False
    then have "workLoop t ?q = (dispatchHead t ?q)\<lparr>isIdle := True\<rparr>"
      using q workLoop_goes_on [of ?q t] dispatch_single(2) [OF q, of t] by simp
    then have "timerFired t' (startWorkLoop t q) = (dispatchHead t ?q)\<lparr>isIdle := True\<rparr>"
      using \<open>isIdle q\<close> by (simp add: startWorkLoop_def timerFired_def)
    then show ?thesis
      using aloneInFlight_cong [OF dispatch_single(1) [OF q, of t] same] by simp
  qed
qed

lemma retry_round:
  assumes "pendingWorkItems st = []" and "inFlight st = [item]"
    and "isRateLimitResponse res" and "retryCount item < MAX_RETRIES"
  shows "aloneInFlight (item\<lparr>retryCount := retryCount item + 1\<rparr>) st
           (exec [Response 0 res t, TimerFired t'] st)"
proof -
  let ?item = "item\<lparr>retryCount := retryCount item + 1\<rparr>"
  let ?q = "setDelayToStartAtNextInterval t (st\<lparr>inFlight := [], pendingWorkItems := [?item]\<rparr>)"
  have "step st (Response 0 res t) = requeue t item (st\<lparr>inFlight := []\<rparr>)"
    using assms by (simp add: removeAt_def rateLimit_requeue)
  then have e: "exec [Response 0 res t, TimerFired t'] st = timerFired t' (startWorkLoop t ?q)"
    using assms(1) by (simp add: requeue_def)
  have "aloneInFlight ?item ?q (timerFired t' (startWorkLoop t ?q))"
    by (rule timer_after_requeue) (simp_all add: setDelay_fields)
  then show ?thesis
    unfolding e by (rule aloneInFlight_cong) (simp_all add: setDelay_fields)
qed

lemma retryRounds_Cons:
  "retryRounds ((res, t, t') # rounds) = [Response 0 res t, TimerFired t'] @ retryRounds rounds"
  by (simp add: retryRounds_def)

lemma retry_chain:
  assumes "pendingWorkItems st = []" and "inFlight st = [item]"
    and "promise item \<notin> fst ` set (settlements st)"
    and "list_all (\<lambda>(res, t, t'). isRateLimitResponse res) rounds"
    and "retryCount item + length rounds = MAX_RETRIES"
    and "isRateLimitResponse final"
  shows "pendingWorkItems (exec (retryRounds rounds @ [Response 0 final tf]) st) = []
       \<and> inFlight (exec (retryRounds rounds @ [Response 0 final tf]) st) = []
       \<and> settlements (exec (retryRounds rounds @ [Response 0 final tf]) st)
         = settlements st @ [(promise item, Inl maxRetriesError)]
       \<and> map retryCount (dispatched (exec (retryRounds rounds @ [Response 0 final tf]) st))
         = map retryCount (dispatched st) @ [retryCount item + 1 ..< MAX_RETRIES + 1]"
  using assms(1,2,3,4,5)
proof (induction rounds arbitrary: st item)
  case Nil
  then have "exec (retryRounds [] @ [Response 0 final tf]) st
             = settle (promise item) (Inl maxRetriesError) (st\<lparr>inFlight := []\<rparr>)"
    using assms(6) by (simp add: retryRounds_def removeAt_def rateLimit_reject)
  then show ?case using Nil by (simp add: settle_def)
next
  case (Cons r rounds)
  obtain res t t' where r: "r = (res, t, t')" by (cases r)
  let ?item = "item\<lparr>retryCount := retryCount item + 1\<rparr>"
  let ?st = "exec [Response 0 res t, TimerFired t'] st"
  have rl: "isRateLimitResponse res" using Cons.prems(4) r by simp
  have lt: "retryCount item < MAX_RETRIES" using Cons.prems(5) by simp
  have a: "aloneInFlight ?item st ?st"
    using retry_round [OF Cons.prems(1,2) rl lt] .
  have split: "exec (retryRounds (r # rounds) @ [Response 0 final tf]) st
               = exec (retryRounds rounds @ [Response 0 final tf]) ?st"
    unfolding r retryRounds_Cons by (simp add: exec_append)
  have ih: "pendingWorkItems (exec (retryRounds rounds @ [Response 0 final tf]) ?st) = []
       \<and> inFlight (exec (retryRounds rounds @ [Response 0 final tf]) ?st) = []
       \<and> settlements (exec (retryRounds rounds @ [Response 0 final tf]) ?st)
         = settlements ?st @ [(promise ?item, Inl maxRetriesError)]
       \<and> map retryCount (dispatched (exec (retryRounds rounds @ [Response 0 final tf]) ?st))
         = map retryCount (dispatched ?st) @ [retryCount ?item + 1 ..< MAX_RETRIES + 1]"
    using a Cons.prems(3,4,5)
    by (intro Cons.IH) (simp_all add: aloneInFlight_def r)
  have "[retryCount item + 1 ..< MAX_RETRIES + 1]
        = (retryCount item + 1) # [retryCount ?item + 1 ..< MAX_RETRIES + 1]"
    using lt by (simp add: upt_conv_Cons)
  then show ?case
    unfolding split using ih a by (simp add: aloneInFlight_def)
qed

subsection \<open>The number of attempts\<close>

lemma attemptsCounted_fields:
  assumes "attemptsCounted st" and "pendingWorkItems st' = pendingWorkItems st"
    and "inFlight st' = inFlight st" and "dispatched st' = dispatched st"
    and "promises st' = promises st"
  shows "attemptsCounted st'"
  using assms by (simp add: attemptsCounted_def)

lemma attemptsCounted_dispatchHead:
  assumes "attemptsCounted st"
  shows "attemptsCounted (dispatchHead now st)"
proof (cases "pendingWorkItems st")
  case Nil
  have "dispatchHead now st = checkAndResetInterval now st"
    using Nil by (simp add: dispatchHead_def checkAndResetInterval_def Let_def)
  then show ?thesis
    using attemptsCounted_fields [OF assms, of "checkAndResetInterval now st"]
    by (simp add: checkAndResetInterval_def Let_def)
next
  case (Cons item rest)
  note d = dispatchHead_Cons [OF Cons, of now]
  let ?c = "\<lambda>p. count_list (map promise (dispatched st)) p"
  from assms Cons have dist: "distinct (map promise (item # rest @ inFlight st))"
    and it: "promise item < promises st" "retryCount item \<le> MAX_RETRIES"
      "?c (promise item) = retryCount item"
    and rest: "\<forall>w \<in> set rest. promise w < promises st \<and> retryCount w \<le> MAX_RETRIES
                 \<and> ?c (promise w) = retryCount w"
    and fl: "\<forall>w \<in> set (inFlight st). promise w < promises st \<and> retryCount w \<le> MAX_RETRIES
                 \<and> ?c (promise w) = retryCount w + 1"
    and dis: "\<forall>w \<in> set (dispatched st). promise w < promises st
                 \<and> ?c (promise w) \<le> MAX_RETRIES + 1"
    by (simp_all add: attemptsCounted_def list_all_iff)
  have other: "promise w \<noteq> promise item" if "w \<in> set rest \<union> set (inFlight st)" for w
    using dist that by (auto simp add: image_iff)
  show ?thesis
    unfolding attemptsCounted_def
    using d dist it rest fl dis other
    by (auto simp add: dispatchHead_fields list_all_iff)
qed


lemma attemptsCounted_workLoop: "attemptsCounted st \<Longrightarrow> attemptsCounted (workLoop now st)"
proof (rule workLoop_preserves [where P = attemptsCounted])
  fix s assume "attemptsCounted s"
  then show "attemptsCounted (s\<lparr>isIdle := True\<rparr>)" by (rule attemptsCounted_fields) simp_all
qed (simp_all add: attemptsCounted_dispatchHead)

lemma attemptsCounted_startWorkLoop:
  "attemptsCounted st \<Longrightarrow> attemptsCounted (startWorkLoop now st)"
proof -
  assume a: "attemptsCounted st"
  then have "attemptsCounted (st\<lparr>isIdle := False, intervalPeriodStart := now\<rparr>)"
    by (rule attemptsCounted_fields) simp_all
  then show ?thesis using a by (simp add: startWorkLoop_def attemptsCounted_workLoop)
qed

lemma attemptsCounted_settle: "attemptsCounted st \<Longrightarrow> attemptsCounted (settle p outcome st)"
  by (erule attemptsCounted_fields) (simp_all add: settle_def)

lemma attemptsCounted_setDelay:
  "attemptsCounted st \<Longrightarrow> attemptsCounted (setDelayToStartAtNextInterval now st)"
  by (erule attemptsCounted_fields) (simp_all add: setDelay_fields)

lemma attemptsCounted_resolveWith:
  "attemptsCounted st \<Longrightarrow> attemptsCounted (resolveWith now item res st)"
  by (simp add: resolveWith_def Let_def attemptsCounted_settle attemptsCounted_setDelay)

text \<open>The state in which the callback for the \<open>i\<close>-th item in flight runs.\<close>

lemma attemptsCounted_removeAt:
  assumes "attemptsCounted st" and "i < length (inFlight st)"
  shows "attemptsCounted (st\<lparr>inFlight := removeAt i (inFlight st)\<rparr>)"
    and "promise (inFlight st ! i)
         \<notin> promise ` set (pendingWorkItems st @ removeAt i (inFlight st))"
    and "promise (inFlight st ! i) < promises st"
    and "count_list (map promise (dispatched st)) (promise (inFlight st ! i))
         = retryCount (inFlight st ! i) + 1"
proof -
  let ?xs = "inFlight st"
  have xs: "?xs = take i ?xs @ ?xs ! i # drop (Suc i) ?xs"
    using assms(2) by (rule id_take_nth_drop)
  have sub: "set (removeAt i ?xs) \<subseteq> set ?xs"
    by (auto simp add: removeAt_def dest: in_set_takeD in_set_dropD)
  have "distinct (map promise (pendingWorkItems st @ take i ?xs @ ?xs ! i # drop (Suc i) ?xs))"
    using assms(1) xs by (simp add: attemptsCounted_def)
  then have dist: "distinct (map promise (pendingWorkItems st @ removeAt i ?xs))"
    and notin: "promise (?xs ! i) \<notin> promise ` set (pendingWorkItems st @ removeAt i ?xs)"
    by (auto simp add: removeAt_def)
  show "attemptsCounted (st\<lparr>inFlight := removeAt i (inFlight st)\<rparr>)"
    using assms(1) dist sub by (auto simp add: attemptsCounted_def list_all_iff)
  show "promise (inFlight st ! i)
         \<notin> promise ` set (pendingWorkItems st @ removeAt i (inFlight st))"
    using notin .
  have "?xs ! i \<in> set ?xs" using assms(2) by simp
  then show "promise (inFlight st ! i) < promises st"
    and "count_list (map promise (dispatched st)) (promise (inFlight st ! i))
         = retryCount (inFlight st ! i) + 1"
    using assms(1) by (auto simp add: attemptsCounted_def list_all_iff)
qed

lemma attemptsCounted_requeue:
  assumes "attemptsCounted st" and "retryCount item < MAX_RETRIES"
    and "promise item \<notin> promise ` set (pendingWorkItems st @ inFlight st)"
    and "promise item < promises st"
    and "count_list (map promise (dispatched st)) (promise item) = retryCount item + 1"
  shows "attemptsCounted (requeue now item st)"
proof -
  have "attemptsCounted (st\<lparr>pendingWorkItems :=
          item\<lparr>retryCount := retryCount item + 1\<rparr> # pendingWorkItems st\<rparr>)"
    using assms by (auto simp add: attemptsCounted_def list_all_iff)
  then show ?thesis
    by (simp add: requeue_def attemptsCounted_startWorkLoop attemptsCounted_setDelay)
qed

lemma attemptsCounted_onResponse:
  assumes "attemptsCounted st"
    and "promise item \<notin> promise ` set (pendingWorkItems st @ inFlight st)"
    and "promise item < promises st"
    and "count_list (map promise (dispatched st)) (promise item) = retryCount item + 1"
  shows "attemptsCounted (onResponse now item res st)"
  using assms
  by (simp add: onResponse_def attemptsCounted_settle attemptsCounted_resolveWith
      attemptsCounted_requeue split: sum.splits)

lemma attemptsCounted_request: "attemptsCounted st \<Longrightarrow> attemptsCounted (request url m st)"
proof -
  assume a: "attemptsCounted st"
  then have lt: "\<forall>w \<in> set (pendingWorkItems st @ inFlight st @ dispatched st).
                   promise w < promises st"
    by (auto simp add: attemptsCounted_def list_all_iff)
  then have "promises st \<notin> promise ` set (pendingWorkItems st @ inFlight st @ dispatched st)"
    by auto
  then have fresh: "promises st \<notin> promise ` set (pendingWorkItems st)"
    "promises st \<notin> promise ` set (inFlight st)"
    "count_list (map promise (dispatched st)) (promises st) = 0"
    by (auto simp add: count_list_0_iff)
  show ?thesis
    using a fresh
    by (auto simp add: attemptsCounted_def request_def getCallCounter_def Let_def
        list_all_iff less_Suc_eq)
qed

lemma attemptsCounted_step: "attemptsCounted st \<Longrightarrow> attemptsCounted (step st e)"
proof (cases e)
  case (Request url m)
  assume "attemptsCounted st"
  then show ?thesis by (simp add: Request attemptsCounted_request)
next
  case (StartTick now)
  assume "attemptsCounted st"
  then show ?thesis by (simp add: StartTick attemptsCounted_startWorkLoop)
next
  case (TimerFired now)
  assume a: "attemptsCounted st"
  then have "attemptsCounted (checkAndResetInterval now st)"
    by (rule attemptsCounted_fields) (simp_all add: checkAndResetInterval_def Let_def)
  then have "attemptsCounted ((checkAndResetInterval now st)\<lparr>isIdle := True\<rparr>)"
    by (rule attemptsCounted_fields) simp_all
  then show ?thesis
    using a
    by (simp add: TimerFired timerFired_def attemptsCounted_workLoop attemptsCounted_dispatchHead)
next
  case (Response i res now)
  assume a: "attemptsCounted st"
  show ?thesis
  proof (cases "i < length (inFlight st)")
    case True
    from attemptsCounted_removeAt [OF a True]
    have "attemptsCounted (onResponse now (inFlight st ! i) res
            (st\<lparr>inFlight := removeAt i (inFlight st)\<rparr>))"
      by (intro attemptsCounted_onResponse) simp_all
    with True show ?thesis by (simp add: Response)
  next
    case False
    with a show ?thesis by (simp add: Response)
  qed
next
  case (Failure i err)
  assume a: "attemptsCounted st"
  show ?thesis
  proof (cases "i < length (inFlight st)")
    case True
    from attemptsCounted_removeAt(1) [OF a True] True show ?thesis
      by (simp add: Failure attemptsCounted_settle)
  next
    case False
    with a show ?thesis by (simp add: Failure)
  qed
qed

lemma attemptsCounted_reachable:
  "attemptsCounted (exec events (rateLimitedRequestFactory limitMs))"
proof (rule exec_invariant)
  show "attemptsCounted (rateLimitedRequestFactory limitMs)"
    by (simp add: attemptsCounted_def rateLimitedRequestFactory_def)
qed (rule attemptsCounted_step)

lemma attempts_bounded:
  "count_list (map promise (dispatched (exec events (rateLimitedRequestFactory limitMs)))) p
   \<le> MAX_RETRIES + 1"
proof (cases "p \<in> promise ` set (dispatched (exec events (rateLimitedRequestFactory limitMs)))")
  case True
  then show ?thesis
    using attemptsCounted_reachable [of events limitMs]
    by (auto simp add: attemptsCounted_def list_all_iff)
next
  case False
  then have "count_list (map promise (dispatched (exec events (rateLimitedRequestFactory limitMs)))) p
             = 0"
    by (simp add: count_list_0_iff)
  then show ?thesis by simp
qed

subsection \<open>Rate-limit rejections end in a failure\<close>

lemmas workLoop_steps = workLoop_suspends workLoop_ends workLoop_goes_on

lemma test_call_dispatched:
  "exec [Request ''https://canvas.local/call'' ''GET'', StartTick 0]
     (rateLimitedRequestFactory 1000)
   = \<lparr>limitIntervalMs = 1000, pendingWorkItems = [], callCounter = 1, isIdle = True,
      nextDelay = 0, intervalPeriodStart = 0,
      inFlight = [\<lparr>promise = 0, workUrl = ''https://canvas.local/call'', workMethod = ''GET'',
                   idCounter = 1, retryCount = 0\<rparr>],
      settlements = [],
      dispatched = [\<lparr>promise = 0, workUrl = ''https://canvas.local/call'', workMethod = ''GET'',
                     idCounter = 1, retryCount = 0\<rparr>],
      promises = 1\<rparr>"
  by (simp add: rateLimitedRequestFactory_def request_def getCallCounter_def
      MAX_SAFE_INTEGER_def startWorkLoop_def workLoop_steps dispatchHead_def
      checkAndResetInterval_def)

lemma test_rateLimited:
  "isRateLimitResponse (rateLimited ''403 Forbidden (Rate Limit Exceeded)'')"
  by (simp add: isRateLimitResponse_def rateLimited_def rateLimitMarker_def)

text \<open>
  C1. The ceiling is 5. On a rate-limit rejection the callback re-queues the item, with
  \<open>retryCount + 1\<close> and nothing settled, only while its \<open>retryCount\<close> is below the
  ceiling; at the ceiling it rejects the promise with the max-retries error and leaves the
  queue as it is. In every state the limiter can reach, whatever the order of requests,
  timers, responses and failures, no waiting or in-flight item has a \<open>retryCount\<close> above 5
  and no promise's \<open>workFn()\<close> has been called more than 6 times. When a request alone
  in flight meets a rate-limit rejection at each attempt, then after the
  \<open>5 - retryCount\<close> retries its promise is rejected with the max-retries error, nothing
  is left in the queue or in flight, and the further attempts were those with retry counts
  \<open>retryCount + 1\<close> to 5.
\<close>

theorem rate_limit_retries_end_in_failure:
  assumes "pendingWorkItems st = []" and "inFlight st = [item]"
    and "promise item \<notin> fst ` set (settlements st)"
    and "list_all (\<lambda>(res, t, t'). isRateLimitResponse res) rounds"
    and "retryCount item + length rounds = MAX_RETRIES"
    and "isRateLimitResponse final"
  shows "MAX_RETRIES = 5
       \<and> (isRateLimitResponse res \<and> retryCount w < MAX_RETRIES \<longrightarrow>
            onResponse now w res s
            = startWorkLoop now
                (setDelayToStartAtNextInterval now
                   (s\<lparr>pendingWorkItems := w\<lparr>retryCount := retryCount w + 1\<rparr> # pendingWorkItems s\<rparr>))
            \<and> settlements (onResponse now w res s) = settlements s)
       \<and> (isRateLimitResponse res \<and> retryCount w \<ge> MAX_RETRIES
            \<and> promise w \<notin> fst ` set (settlements s) \<longrightarrow>
            onResponse now w res s
            = s\<lparr>settlements := settlements s @ [(promise w, Inl maxRetriesError)]\<rparr>)
       \<and> retryBounded (exec events (rateLimitedRequestFactory limitMs))
       \<and> count_list (map promise (dispatched (exec events (rateLimitedRequestFactory limitMs)))) p
         \<le> MAX_RETRIES + 1
       \<and> pendingWorkItems (exec (retryRounds rounds @ [Response 0 final tf]) st) = []
       \<and> inFlight (exec (retryRounds rounds @ [Response 0 final tf]) st) = []
       \<and> settlements (exec (retryRounds rounds @ [Response 0 final tf]) st)
         = settlements st @ [(promise item, Inl maxRetriesError)]
       \<and> map retryCount (dispatched (exec (retryRounds rounds @ [Response 0 final tf]) st))
         = map retryCount (dispatched st) @ [retryCount item + 1 ..< MAX_RETRIES + 1]"
proof -
  have a: "isRateLimitResponse res \<and> retryCount w < MAX_RETRIES \<longrightarrow>
            onResponse now w res s
            = startWorkLoop now
                (setDelayToStartAtNextInterval now
                   (s\<lparr>pendingWorkItems := w\<lparr>retryCount := retryCount w + 1\<rparr> # pendingWorkItems s\<rparr>))
            \<and> settlements (onResponse now w res s) = settlements s"
    using rateLimit_requeue [of res w now s] requeue_settlements [of now w s]
    by (simp add: requeue_def)
  have b: "isRateLimitResponse res \<and> retryCount w \<ge> MAX_RETRIES
            \<and> promise w \<notin> fst ` set (settlements s) \<longrightarrow>
            onResponse now w res s
            = s\<lparr>settlements := settlements s @ [(promise w, Inl maxRetriesError)]\<rparr>"
    using rateLimit_reject [of res w now s] by (simp add: settle_def)
  have m: "MAX_RETRIES = 5" by (simp add: MAX_RETRIES_def)
  from m a b retryBounded_reachable [of events limitMs] attempts_bounded [of events limitMs p]
    retry_chain [OF assms, of tf]
  show ?thesis by blast
qed

theorem rate_limit_retries_end_in_failure_witness:
  "settlements
     (exec ([Request ''https://canvas.local/call'' ''GET'', StartTick 0]
            @ retryRounds
                [(rateLimited ''403 Forbidden (Rate Limit Exceeded)'', 10, 1000),
                 (rateLimited ''403 Forbidden (Rate Limit Exceeded)'', 1010, 2000),
                 (rateLimited ''403 Forbidden (Rate Limit Exceeded)'', 2010, 3000),
                 (rateLimited ''403 Forbidden (Rate Limit Exceeded)'', 3010, 4000),
                 (rateLimited ''403 Forbidden (Rate Limit Exceeded)'', 4010, 5000)]
            @ [Response 0 (rateLimited ''403 Forbidden (Rate Limit Exceeded)'') 5010])
        (rateLimitedRequestFactory 1000))
   = [(0, Inl maxRetriesError)]
   \<and> map retryCount (dispatched
     (exec ([Request ''https://canvas.local/call'' ''GET'', StartTick 0]
            @ retryRounds
                [(rateLimited ''403 Forbidden (Rate Limit Exceeded)'', 10, 1000),
                 (rateLimited ''403 Forbidden (Rate Limit Exceeded)'', 1010, 2000),
                 (rateLimited ''403 Forbidden (Rate Limit Exceeded)'', 2010, 3000),
                 (rateLimited ''403 Forbidden (Rate Limit Exceeded)'', 3010, 4000),
                 (rateLimited ''403 Forbidden (Rate Limit Exceeded)'', 4010, 5000)]
            @ [Response 0 (rateLimited ''403 Forbidden (Rate Limit Exceeded)'') 5010])
        (rateLimitedRequestFactory 1000)))
   = [0, 1, 2, 3, 4, 5]"
proof -
  let ?rl = "rateLimited ''403 Forbidden (Rate Limit Exceeded)''"
  let ?st = "exec [Request ''https://canvas.local/call'' ''GET'', StartTick 0]
               (rateLimitedRequestFactory 1000)"
  let ?item = "\<lparr>promise = 0, workUrl = ''https://canvas.local/call'', workMethod = ''GET'',
                 idCounter = 1, retryCount = 0\<rparr>"
  let ?rounds = "[(?rl, 10, 1000), (?rl, 1010, 2000), (?rl, 2010, 3000), (?rl, 3010, 4000),
                  (?rl, 4010, 5000)]"
  have h: "pendingWorkItems ?st = []" "inFlight ?st = [?item]"
    "promise ?item \<notin> fst ` set (settlements ?st)"
    "list_all (\<lambda>(res, t, t'). isRateLimitResponse res) ?rounds"
    "retryCount ?item + length ?rounds = MAX_RETRIES"
    "isRateLimitResponse ?rl"
    by (simp_all add: test_call_dispatched test_rateLimited MAX_RETRIES_def
        del: exec_Cons exec_Nil)
  have up: "[Suc 0..<Suc MAX_RETRIES] = [1, 2, 3, 4, 5]"
    by (simp add: upt_conv_Cons MAX_RETRIES_def)
  note th = rate_limit_retries_end_in_failure
    [where tf = 5010 and res = ?rl and w = ?item and now = 0 and s = ?st and events = "[]"
      and limitMs = 1000, OF h]
  have "settlements (exec (retryRounds ?rounds @ [Response 0 ?rl 5010]) ?st)
        = settlements ?st @ [(promise ?item, Inl maxRetriesError)]"
    and "map retryCount (dispatched (exec (retryRounds ?rounds @ [Response 0 ?rl 5010]) ?st))
        = map retryCount (dispatched ?st) @ [retryCount ?item + 1 ..< MAX_RETRIES + 1]"
    using th by blast+
  moreover have "exec ([Request ''https://canvas.local/call'' ''GET'', StartTick 0]
                       @ retryRounds ?rounds @ [Response 0 ?rl 5010])
                   (rateLimitedRequestFactory 1000)
                 = exec (retryRounds ?rounds @ [Response 0 ?rl 5010]) ?st"
    by (simp only: exec_append)
  ultimately show ?thesis
    by (simp add: test_call_dispatched up del: exec_Cons exec_Nil upt_Suc)
qed

text \<open>
  C2. A response with status 403 whose body text does not hold the marker, for an item
  whose promise is pending: the callback leaves the queue, the items in flight and the
  calls made as they are (the item is not re-queued), and resolves the promise with the
  response whose body now replays the text that was read. \<open>_request\<close> then parses that
  body and throws a \<open>CanvasApiResponseError\<close> whose response has status 403, the
  original headers and the original text; on the consumed stream, without the replay,
  it would have thrown a \<open>CanvasApiRequestError\<close>.
\<close>

theorem plain_403_resolved_with_body:
  assumes "resStatusCode res = 403" and "resBody res = Unread txt"
    and "\<not> includesStr txt rateLimitMarker"
    and "promise item \<notin> fst ` set (settlements st)"
  shows "pendingWorkItems (onResponse now item res st) = pendingWorkItems st
       \<and> inFlight (onResponse now item res st) = inFlight st
       \<and> dispatched (onResponse now item res st) = dispatched st
       \<and> settlements (onResponse now item res st)
         = settlements st @ [(promise item, Inr (res\<lparr>resBody := Replay txt\<rparr>))]
       \<and> (\<exists>r. settleResponse parse (Inr (res\<lparr>resBody := Replay txt\<rparr>))
                = Inl (CanvasApiResponseError r)
              \<and> statusCode r = 403 \<and> headers r = resHeaders res \<and> rawText r = txt)
       \<and> settleResponse parse (Inr (res\<lparr>resBody := Consumed\<rparr>))
         = Inl (CanvasApiRequestError ''Body is unusable'')"
proof -
  have on: "onResponse now item res st = resolveWith now item (res\<lparr>resBody := Replay txt\<rparr>) st"
    using assms(1,2,3) by (simp add: onResponse_def)
  have fields: "pendingWorkItems (onResponse now item res st) = pendingWorkItems st
       \<and> inFlight (onResponse now item res st) = inFlight st
       \<and> dispatched (onResponse now item res st) = dispatched st
       \<and> settlements (onResponse now item res st)
         = settlements st @ [(promise item, Inr (res\<lparr>resBody := Replay txt\<rparr>))]"
    unfolding on using assms(4)
    by (simp add: resolveWith_def Let_def settle_def setDelay_fields)
  have parsed: "\<exists>r. settleResponse parse (Inr (res\<lparr>resBody := Replay txt\<rparr>))
                = Inl (CanvasApiResponseError r)
              \<and> statusCode r = 403 \<and> headers r = resHeaders res \<and> rawText r = txt"
    using assms(1) by (cases "parse txt") (simp_all add: settleResponse_def parseBody_def)
  have consumed: "settleResponse parse (Inr (res\<lparr>resBody := Consumed\<rparr>))
         = Inl (CanvasApiRequestError ''Body is unusable'')"
    by (simp add: settleResponse_def parseBody_def)
  from fields parsed consumed show ?thesis by blast
qed

theorem plain_403_resolved_with_body_witness:
  "settlements
     (exec [Request ''https://canvas.local/forbidden'' ''GET'', StartTick 0,
            Response 0 \<lparr>resStatusCode = 403, resHeaders = [],
                        resBody = Unread ''403 Forbidden (Permissions)''\<rparr> 10]
        (rateLimitedRequestFactory 1000))
   = [(0, Inr \<lparr>resStatusCode = 403, resHeaders = [],
               resBody = Replay ''403 Forbidden (Permissions)''\<rparr>)]
   \<and> (\<exists>r. settleResponse testJsonParse
             (Inr \<lparr>resStatusCode = 403, resHeaders = [],
                   resBody = Replay ''403 Forbidden (Permissions)''\<rparr>)
           = Inl (CanvasApiResponseError r)
         \<and> statusCode r = 403 \<and> headers r = [] \<and> rawText r = ''403 Forbidden (Permissions)'')"
proof -
  let ?res = "\<lparr>resStatusCode = 403, resHeaders = [],
               resBody = Unread ''403 Forbidden (Permissions)''\<rparr>"
  let ?item = "\<lparr>promise = 0, workUrl = ''https://canvas.local/forbidden'',
                workMethod = ''GET'', idCounter = 1, retryCount = 0\<rparr>"
  let ?st = "\<lparr>limitIntervalMs = 1000, pendingWorkItems = [], callCounter = 1, isIdle = True,
      nextDelay = 0, intervalPeriodStart = 0, inFlight = [], settlements = [],
      dispatched = [?item], promises = 1\<rparr>"
  have st: "exec [Request ''https://canvas.local/forbidden'' ''GET'', StartTick 0,
                  Response 0 ?res 10] (rateLimitedRequestFactory 1000)
            = onResponse 10 ?item ?res ?st"
    by (simp add: rateLimitedRequestFactory_def request_def getCallCounter_def
        MAX_SAFE_INTEGER_def startWorkLoop_def workLoop_steps dispatchHead_def
        checkAndResetInterval_def removeAt_def)
  have h: "resStatusCode ?res = 403" "resBody ?res = Unread ''403 Forbidden (Permissions)''"
    "\<not> includesStr ''403 Forbidden (Permissions)'' rateLimitMarker"
    "promise ?item \<notin> fst ` set (settlements ?st)"
    by (simp_all add: rateLimitMarker_def)
  from plain_403_resolved_with_body [OF h, of 10 testJsonParse]
  show ?thesis unfolding st by simp
qed

subsection \<open>The order of the queue\<close>

lemma retriedFirst_tail:
  assumes "list_all (\<lambda>item. retryCount item = 0)
             (dropWhile (\<lambda>item. retryCount item > 0) (item # rest))"
  shows "list_all (\<lambda>item. retryCount item = 0)
           (dropWhile (\<lambda>item. retryCount item > 0) rest)"
proof (cases "retryCount item > 0")
  case True
  with assms show ?thesis by simp
next
  case False
  with assms have "list_all (\<lambda>item. retryCount item = 0) rest" by simp
  then show ?thesis by (auto simp add: list_all_iff dest: set_dropWhileD)
qed

lemma retriedFirst_snoc:
  assumes "list_all (\<lambda>item. retryCount item = 0)
             (dropWhile (\<lambda>item. retryCount item > 0) xs)"
    and "retryCount y = 0"
  shows "list_all (\<lambda>item. retryCount item = 0)
           (dropWhile (\<lambda>item. retryCount item > 0) (xs @ [y]))"
  using assms by (induction xs) auto

lemma retriedFirst_dispatchHead: "retriedFirst st \<Longrightarrow> retriedFirst (dispatchHead now st)"
proof (cases "pendingWorkItems st")
  case Nil
  assume "retriedFirst st"
  with Nil show ?thesis
    by (simp add: retriedFirst_def dispatchHead_def checkAndResetInterval_def Let_def)
next
  case (Cons item rest)
  assume "retriedFirst st"
  with Cons retriedFirst_tail [of item rest] dispatchHead_Cons [OF Cons, of now]
  show ?thesis by (simp add: retriedFirst_def)
qed

lemma freshInOrder_dispatchHead: "freshInOrder st \<Longrightarrow> freshInOrder (dispatchHead now st)"
proof (cases "pendingWorkItems st")
  case Nil
  assume "freshInOrder st"
  with Nil show ?thesis
    by (simp add: freshInOrder_def dispatchHead_def checkAndResetInterval_def Let_def)
next
  case (Cons item rest)
  assume "freshInOrder st"
  with Cons dispatchHead_Cons [OF Cons, of now] show ?thesis
    by (auto simp add: freshInOrder_def dispatchHead_fields split: if_splits)
qed

lemma queueOrdered_fields:
  assumes "queueOrdered st" and "pendingWorkItems st' = pendingWorkItems st"
    and "dispatched st' = dispatched st" and "promises st' = promises st"
  shows "queueOrdered st'"
  using assms by (simp add: queueOrdered_def retriedFirst_def freshInOrder_def)

lemma queueOrdered_dispatchHead: "queueOrdered st \<Longrightarrow> queueOrdered (dispatchHead now st)"
  by (simp add: queueOrdered_def retriedFirst_dispatchHead freshInOrder_dispatchHead)

lemma queueOrdered_workLoop: "queueOrdered st \<Longrightarrow> queueOrdered (workLoop now st)"
proof (rule workLoop_preserves [where P = queueOrdered])
  fix s assume "queueOrdered s"
  then show "queueOrdered (s\<lparr>isIdle := True\<rparr>)" by (rule queueOrdered_fields) simp_all
qed (simp_all add: queueOrdered_dispatchHead)

lemma queueOrdered_startWorkLoop: "queueOrdered st \<Longrightarrow> queueOrdered (startWorkLoop now st)"
proof -
  assume a: "queueOrdered st"
  then have "queueOrdered (st\<lparr>isIdle := False, intervalPeriodStart := now\<rparr>)"
    by (rule queueOrdered_fields) simp_all
  then show ?thesis using a by (simp add: startWorkLoop_def queueOrdered_workLoop)
qed

lemma queueOrdered_settle: "queueOrdered st \<Longrightarrow> queueOrdered (settle p outcome st)"
  by (erule queueOrdered_fields) (simp_all add: settle_def)

lemma queueOrdered_setDelay:
  "queueOrdered st \<Longrightarrow> queueOrdered (setDelayToStartAtNextInterval now st)"
  by (erule queueOrdered_fields) (simp_all add: setDelay_fields)

lemma queueOrdered_resolveWith: "queueOrdered st \<Longrightarrow> queueOrdered (resolveWith now item res st)"
  by (simp add: resolveWith_def Let_def queueOrdered_settle queueOrdered_setDelay)

lemma queueOrdered_requeue: "queueOrdered st \<Longrightarrow> queueOrdered (requeue now item st)"
proof -
  assume "queueOrdered st"
  then have "queueOrdered (st\<lparr>pendingWorkItems :=
          item\<lparr>retryCount := retryCount item + 1\<rparr> # pendingWorkItems st\<rparr>)"
    by (simp add: queueOrdered_def retriedFirst_def freshInOrder_def)
  then show ?thesis
    by (simp add: requeue_def queueOrdered_startWorkLoop queueOrdered_setDelay)
qed

lemma queueOrdered_onResponse: "queueOrdered st \<Longrightarrow> queueOrdered (onResponse now item res st)"
  by (simp add: onResponse_def queueOrdered_settle queueOrdered_resolveWith
      queueOrdered_requeue split: sum.splits)

lemma queueOrdered_request: "queueOrdered st \<Longrightarrow> queueOrdered (request url m st)"
  by (simp add: queueOrdered_def retriedFirst_def freshInOrder_def request_def
      getCallCounter_def Let_def retriedFirst_snoc)

lemma queueOrdered_step: "queueOrdered st \<Longrightarrow> queueOrdered (step st e)"
proof (cases e)
  case (Request url m)
  assume "queueOrdered st"
  then show ?thesis by (simp add: Request queueOrdered_request)
next
  case (StartTick now)
  assume "queueOrdered st"
  then show ?thesis by (simp add: StartTick queueOrdered_startWorkLoop)
next
  case (TimerFired now)
  assume a: "queueOrdered st"
  then have "queueOrdered (checkAndResetInterval now st)"
    by (rule queueOrdered_fields) (simp_all add: checkAndResetInterval_def Let_def)
  then have "queueOrdered ((checkAndResetInterval now st)\<lparr>isIdle := True\<rparr>)"
    by (rule queueOrdered_fields) simp_all
  then show ?thesis
    using a by (simp add: TimerFired timerFired_def queueOrdered_workLoop queueOrdered_dispatchHead)
next
  case (Response i res now)
  assume "queueOrdered st"
  then have "queueOrdered (st\<lparr>inFlight := removeAt i (inFlight st)\<rparr>)"
    by (rule queueOrdered_fields) simp_all
  then show ?thesis
    using \<open>queueOrdered st\<close> by (simp add: Response queueOrdered_onResponse)
next
  case (Failure i err)
  assume "queueOrdered st"
  then have "queueOrdered (st\<lparr>inFlight := removeAt i (inFlight st)\<rparr>)"
    by (rule queueOrdered_fields) simp_all
  then show ?thesis
    using \<open>queueOrdered st\<close> by (simp add: Failure queueOrdered_settle)
qed

lemma queueOrdered_reachable: "queueOrdered (exec events (rateLimitedRequestFactory limitMs))"
proof (rule exec_invariant)
  show "queueOrdered (rateLimitedRequestFactory limitMs)"
    by (simp add: queueOrdered_def retriedFirst_def freshInOrder_def
        rateLimitedRequestFactory_def)
qed (rule queueOrdered_step)

lemmas limiter_eval =
  rateLimitedRequestFactory_def request_def getCallCounter_def MAX_SAFE_INTEGER_def
  startWorkLoop_def timerFired_def workLoop_steps dispatchHead_def checkAndResetInterval_def
  removeAt_def rateLimit_requeue test_rateLimited MAX_RETRIES_def requeue_def
  setDelayToStartAtNextInterval_def Let_def

text \<open>
  C8 (as amended). A submitted item is appended at the tail of the queue with retry count
  0; a rate-limited item below the ceiling is put back at the head with
  \<open>retryCount + 1\<close> and the same promise; the loop always calls the head item. So in
  every state the limiter can reach, every retried item in the queue stands before every
  item not yet attempted, and the items not yet attempted are called in the order of
  their submission: the calls with retry count 0, followed by the queue entries with
  retry count 0, are the promises in the order of their creation.
\<close>

theorem queue_order_invariant:
  "retriedFirst (exec events (rateLimitedRequestFactory limitMs))
   \<and> freshInOrder (exec events (rateLimitedRequestFactory limitMs))
   \<and> pendingWorkItems (request url m st)
     = pendingWorkItems st
       @ [\<lparr>promise = promises st, workUrl = url, workMethod = m,
           idCounter = fst (getCallCounter st), retryCount = 0\<rparr>]
   \<and> (isRateLimitResponse res \<and> retryCount item < MAX_RETRIES \<longrightarrow>
        onResponse now item res st
        = startWorkLoop now
            (setDelayToStartAtNextInterval now
               (st\<lparr>pendingWorkItems :=
                     item\<lparr>retryCount := retryCount item + 1\<rparr> # pendingWorkItems st\<rparr>)))
   \<and> (pendingWorkItems st = item # rest \<longrightarrow>
        pendingWorkItems (dispatchHead now st) = rest
        \<and> dispatched (dispatchHead now st) = dispatched st @ [item])"
proof -
  have a: "retriedFirst (exec events (rateLimitedRequestFactory limitMs))
           \<and> freshInOrder (exec events (rateLimitedRequestFactory limitMs))"
    using queueOrdered_reachable [of events limitMs] by (simp add: queueOrdered_def)
  have b: "pendingWorkItems (request url m st)
     = pendingWorkItems st
       @ [\<lparr>promise = promises st, workUrl = url, workMethod = m,
           idCounter = fst (getCallCounter st), retryCount = 0\<rparr>]"
    by (simp add: request_def getCallCounter_def Let_def)
  have c: "isRateLimitResponse res \<and> retryCount item < MAX_RETRIES \<longrightarrow>
        onResponse now item res st
        = startWorkLoop now
            (setDelayToStartAtNextInterval now
               (st\<lparr>pendingWorkItems :=
                     item\<lparr>retryCount := retryCount item + 1\<rparr> # pendingWorkItems st\<rparr>))"
    using rateLimit_requeue [of res item now st] by (simp add: requeue_def)
  have d: "pendingWorkItems st = item # rest \<longrightarrow>
        pendingWorkItems (dispatchHead now st) = rest
        \<and> dispatched (dispatchHead now st) = dispatched st @ [item]"
    using dispatchHead_Cons [of st item rest now] by simp
  from a b c d show ?thesis by blast
qed

theorem queue_order_invariant_witness:
  "map (\<lambda>item. (promise item, retryCount item))
     (pendingWorkItems
        (exec [Request ''a'' ''GET'', StartTick 0, Request ''b'' ''GET'', Request ''c'' ''GET'',
               Response 0 (rateLimited ''403 Forbidden (Rate Limit Exceeded)'') 10]
           (rateLimitedRequestFactory 1000)))
   = [(0, 1), (1, 0), (2, 0)]
   \<and> retriedFirst
       (exec [Request ''a'' ''GET'', StartTick 0, Request ''b'' ''GET'', Request ''c'' ''GET'',
              Response 0 (rateLimited ''403 Forbidden (Rate Limit Exceeded)'') 10]
          (rateLimitedRequestFactory 1000))
   \<and> freshInOrder
       (exec [Request ''a'' ''GET'', StartTick 0, Request ''b'' ''GET'', Request ''c'' ''GET'',
              Response 0 (rateLimited ''403 Forbidden (Rate Limit Exceeded)'') 10]
          (rateLimitedRequestFactory 1000))"
proof -
  let ?rl = "rateLimited ''403 Forbidden (Rate Limit Exceeded)''"
  let ?a = "\<lparr>promise = 0, workUrl = ''a'', workMethod = ''GET'', idCounter = 1, retryCount = 0\<rparr>"
  let ?st = "exec [Request ''a'' ''GET'', StartTick 0, Request ''b'' ''GET'', Request ''c'' ''GET'']
               (rateLimitedRequestFactory 1000)"
  let ?events = "[Request ''a'' ''GET'', StartTick 0, Request ''b'' ''GET'', Request ''c'' ''GET'',
                  Response 0 ?rl 10]"
  note th = queue_order_invariant
    [where events = ?events and limitMs = 1000 and res = ?rl and item = ?a and now = 10
      and st = "?st\<lparr>inFlight := []\<rparr>" and url = "''d''" and m = "''GET''" and rest = "[]"]
  have hyp: "isRateLimitResponse ?rl \<and> retryCount ?a < MAX_RETRIES"
    by (simp add: test_rateLimited MAX_RETRIES_def)
  have inv: "retriedFirst (exec ?events (rateLimitedRequestFactory 1000))"
    "freshInOrder (exec ?events (rateLimitedRequestFactory 1000))"
    using th by blast+
  have re: "onResponse 10 ?a ?rl (?st\<lparr>inFlight := []\<rparr>)
        = startWorkLoop 10
            (setDelayToStartAtNextInterval 10
               (?st\<lparr>inFlight := [],
                     pendingWorkItems :=
                       ?a\<lparr>retryCount := retryCount ?a + 1\<rparr> # pendingWorkItems ?st\<rparr>))"
    using th hyp by simp
  have st: "?st = \<lparr>limitIntervalMs = 1000,
      pendingWorkItems =
        [\<lparr>promise = 1, workUrl = ''b'', workMethod = ''GET'', idCounter = 2, retryCount = 0\<rparr>,
         \<lparr>promise = 2, workUrl = ''c'', workMethod = ''GET'', idCounter = 3, retryCount = 0\<rparr>],
      callCounter = 3, isIdle = True, nextDelay = 0, intervalPeriodStart = 0,
      inFlight = [?a], settlements = [], dispatched = [?a], promises = 3\<rparr>"
    by (simp add: limiter_eval)
  have "exec ?events (rateLimitedRequestFactory 1000)
        = onResponse 10 ?a ?rl (?st\<lparr>inFlight := []\<rparr>)"
    by (simp add: limiter_eval)
  then have "map (\<lambda>item. (promise item, retryCount item))
     (pendingWorkItems (exec ?events (rateLimitedRequestFactory 1000)))
     = [(0, 1), (1, 0), (2, 0)]"
    unfolding re st by (simp add: limiter_eval)
  with inv show ?thesis by simp
qed

text \<open>
  The claim as worded fails for retried items. Two requests are submitted and called
  in one run of the loop; both are answered by a rate-limit rejection before the delay
  timer fires. Each rejection puts its item at the head, so the later one ends up first:
  with retry count 1, the second request is called before the first.
\<close>

theorem retried_items_reversed_counterexample:
  "map (\<lambda>item. (promise item, retryCount item))
     (dispatched
        (exec [Request ''a'' ''GET'', Request ''b'' ''GET'', StartTick 0, StartTick 0,
               Response 0 (rateLimited ''403 Forbidden (Rate Limit Exceeded)'') 10,
               Response 0 (rateLimited ''403 Forbidden (Rate Limit Exceeded)'') 20,
               TimerFired 1000, TimerFired 1990]
           (rateLimitedRequestFactory 1000)))
   = [(0, 0), (1, 0), (1, 1), (0, 1)]
   \<and> \<not> fifoPerRetryCount
       (dispatched
          (exec [Request ''a'' ''GET'', Request ''b'' ''GET'', StartTick 0, StartTick 0,
                 Response 0 (rateLimited ''403 Forbidden (Rate Limit Exceeded)'') 10,
                 Response 0 (rateLimited ''403 Forbidden (Rate Limit Exceeded)'') 20,
                 TimerFired 1000, TimerFired 1990]
             (rateLimitedRequestFactory 1000)))"
  by (simp add: limiter_eval fifoPerRetryCount_def)

section \<open>Properties of the constructor\<close>

lemma constructAll_Cons:
  "fst (constructAll validUrl ((url, tok, options) # calls) vars)
   = fst (CanvasApi_constructor validUrl url tok options vars)
     # fst (constructAll validUrl calls (snd (CanvasApi_constructor validUrl url tok options vars)))"
  "snd (constructAll validUrl ((url, tok, options) # calls) vars)
   = snd (constructAll validUrl calls (snd (CanvasApi_constructor validUrl url tok options vars)))"
  by (simp_all split: prod.splits)

lemma throttles_constructs: "throttles validUrl call \<Longrightarrow> constructs validUrl call"
  by (auto simp add: throttles_def constructs_def)

lemma constructor_invalid:
  "\<not> constructs validUrl (url, tok, options) \<Longrightarrow>
   CanvasApi_constructor validUrl url tok options vars = (Inl (TypeError ''Invalid URL''), vars)"
  by (simp add: CanvasApi_constructor_def constructs_def)

lemma constructor_unthrottled:
  "constructs validUrl (url, tok, options) \<Longrightarrow> \<not> throttles validUrl (url, tok, options) \<Longrightarrow>
   CanvasApi_constructor validUrl url tok options vars
   = (Inr \<lparr>apiUrl = withTrailingSlash url, token = tok, instanceTimeout = optTimeout options,
           requestField = UndiciRequest\<rparr>, vars)"
  by (simp add: CanvasApi_constructor_def constructs_def throttles_def)

lemma constructor_shared:
  "throttles validUrl (url, tok, options) \<Longrightarrow>
   requestWithRateLimitThrottling vars = Some shared \<Longrightarrow>
   CanvasApi_constructor validUrl url tok options vars
   = (Inr \<lparr>apiUrl = withTrailingSlash url, token = tok, instanceTimeout = optTimeout options,
           requestField = RateLimitedRequest shared\<rparr>, vars)"
  by (simp add: CanvasApi_constructor_def throttles_def)

lemma constructor_creates:
  "throttles validUrl (url, tok, options) \<Longrightarrow>
   requestWithRateLimitThrottling vars = None \<Longrightarrow>
   CanvasApi_constructor validUrl url tok options vars
   = (Inr \<lparr>apiUrl = withTrailingSlash url, token = tok, instanceTimeout = optTimeout options,
           requestField = RateLimitedRequest (length (createdLimiters vars))\<rparr>,
      \<lparr>requestWithRateLimitThrottling = Some (length (createdLimiters vars)),
       createdLimiters = createdLimiters vars @ [intervalOf options]\<rparr>)"
  by (simp add: CanvasApi_constructor_def throttles_def)

lemma constructAll_shared:
  assumes "requestWithRateLimitThrottling vars = Some shared"
  shows "snd (constructAll validUrl calls vars) = vars
       \<and> map requestField (instancesOf (fst (constructAll validUrl calls vars)))
         = map (\<lambda>call. if throttles validUrl call then RateLimitedRequest shared
                        else UndiciRequest)
             (filter (constructs validUrl) calls)"
proof (induction calls)
  case Nil
  show ?case by simp
next
  case (Cons call calls)
  obtain url tok options where c: "call = (url, tok, options)" by (cases call)
  show ?case
  proof (cases "constructs validUrl call")
    case False
    then have "\<not> throttles validUrl call" using throttles_constructs by blast
    with False Cons show ?thesis
      unfolding c by (simp add: constructAll_Cons constructor_invalid del: constructAll.simps)
  next
    case True
    show ?thesis
    proof (cases "throttles validUrl call")
      case False
      with True Cons show ?thesis
        unfolding c by (simp add: constructAll_Cons constructor_unthrottled del: constructAll.simps)
    next
      case t: True
      with True Cons assms show ?thesis
        unfolding c by (simp add: constructAll_Cons constructor_shared del: constructAll.simps)
    qed
  qed
qed

lemma constructAll_fresh:
  assumes "requestWithRateLimitThrottling vars = None" and "createdLimiters vars = []"
  shows "createdLimiters (snd (constructAll validUrl calls vars))
         = map (\<lambda>(url, tok, options). intervalOf options)
             (take 1 (filter (throttles validUrl) calls))
       \<and> map requestField (instancesOf (fst (constructAll validUrl calls vars)))
         = map (\<lambda>call. if throttles validUrl call then RateLimitedRequest 0
                        else UndiciRequest)
             (filter (constructs validUrl) calls)"
proof (induction calls)
  case Nil
  show ?case using assms by simp
next
  case (Cons call calls)
  obtain url tok options where c: "call = (url, tok, options)" by (cases call)
  show ?case
  proof (cases "constructs validUrl call")
    case False
    then have "\<not> throttles validUrl call" using throttles_constructs by blast
    with False Cons show ?thesis
      unfolding c by (simp add: constructAll_Cons constructor_invalid del: constructAll.simps)
  next
    case True
    show ?thesis
    proof (cases "throttles validUrl call")
      case False
      with True Cons show ?thesis
        unfolding c by (simp add: constructAll_Cons constructor_unthrottled del: constructAll.simps)
    next
      case t: True
      let ?vars = "\<lparr>requestWithRateLimitThrottling = Some 0,
                    createdLimiters = [intervalOf options]\<rparr>"
      have "requestWithRateLimitThrottling ?vars = Some 0" by simp
      from constructAll_shared [OF this, of validUrl calls] t True assms
      show ?thesis
        unfolding c by (simp add: constructAll_Cons constructor_creates del: constructAll.simps)
    qed
  qed
qed

text \<open>
  C10. Over any sequence of constructor calls in one process, starting with the module's
  variable undefined: the factory is called at most once, namely by the first call that
  creates an instance without \<open>disableThrottling\<close>, and with that call's
  \<open>rateLimitIntervalMs ?? 1000\<close>; every instance created without \<open>disableThrottling\<close>
  holds that one limiter, whatever \<open>rateLimitIntervalMs\<close> its own call passed, and
  every instance created with \<open>disableThrottling\<close> holds undici's \<open>request\<close>. For
  example, of four calls with intervals 50 (throttling disabled), 200, 500 and none, the
  one limiter has interval 200.
\<close>

theorem shared_limiter_created_once:
  "createdLimiters (snd (constructAll validUrl calls moduleStart))
   = map (\<lambda>(url, tok, options). intervalOf options) (take 1 (filter (throttles validUrl) calls))
   \<and> length (createdLimiters (snd (constructAll validUrl calls moduleStart))) \<le> 1
   \<and> map requestField (instancesOf (fst (constructAll validUrl calls moduleStart)))
     = map (\<lambda>call. if throttles validUrl call then RateLimitedRequest 0 else UndiciRequest)
         (filter (constructs validUrl) calls)
   \<and> createdLimiters (snd (constructAll (\<lambda>url. True)
         [(''https://a/'', ''t'',
           \<lparr>optTimeout = None, rateLimitIntervalMs = Some 50, disableThrottling = Some True\<rparr>),
          (''https://b/'', ''t'',
           \<lparr>optTimeout = None, rateLimitIntervalMs = Some 200, disableThrottling = None\<rparr>),
          (''https://c/'', ''t'',
           \<lparr>optTimeout = None, rateLimitIntervalMs = Some 500, disableThrottling = Some False\<rparr>),
          (''https://d/'', ''t'',
           \<lparr>optTimeout = None, rateLimitIntervalMs = None, disableThrottling = None\<rparr>)]
         moduleStart))
     = [200]
   \<and> map requestField (instancesOf (fst (constructAll (\<lambda>url. True)
         [(''https://a/'', ''t'',
           \<lparr>optTimeout = None, rateLimitIntervalMs = Some 50, disableThrottling = Some True\<rparr>),
          (''https://b/'', ''t'',
           \<lparr>optTimeout = None, rateLimitIntervalMs = Some 200, disableThrottling = None\<rparr>),
          (''https://c/'', ''t'',
           \<lparr>optTimeout = None, rateLimitIntervalMs = Some 500, disableThrottling = Some False\<rparr>),
          (''https://d/'', ''t'',
           \<lparr>optTimeout = None, rateLimitIntervalMs = None, disableThrottling = None\<rparr>)]
         moduleStart)))
     = [UndiciRequest, RateLimitedRequest 0, RateLimitedRequest 0, RateLimitedRequest 0]"
proof -
  have s: "requestWithRateLimitThrottling moduleStart = None" "createdLimiters moduleStart = []"
    by (simp_all add: moduleStart_def)
  note g = constructAll_fresh [OF s]
  have a: "createdLimiters (snd (constructAll validUrl calls moduleStart))
   = map (\<lambda>(url, tok, options). intervalOf options) (take 1 (filter (throttles validUrl) calls))"
    using g [of validUrl calls] by blast
  then have b: "length (createdLimiters (snd (constructAll validUrl calls moduleStart))) \<le> 1"
    by simp
  have c: "map requestField (instancesOf (fst (constructAll validUrl calls moduleStart)))
     = map (\<lambda>call. if throttles validUrl call then RateLimitedRequest 0 else UndiciRequest)
         (filter (constructs validUrl) calls)"
    using g [of validUrl calls] by blast
  let ?calls = "[(''https://a/'', ''t'',
           \<lparr>optTimeout = None, rateLimitIntervalMs = Some 50, disableThrottling = Some True\<rparr>),
          (''https://b/'', ''t'',
           \<lparr>optTimeout = None, rateLimitIntervalMs = Some 200, disableThrottling = None\<rparr>),
          (''https://c/'', ''t'',
           \<lparr>optTimeout = None, rateLimitIntervalMs = Some 500, disableThrottling = Some False\<rparr>),
          (''https://d/'', ''t'',
           \<lparr>optTimeout = None, rateLimitIntervalMs = None, disableThrottling = None\<rparr>)]"
  have d: "createdLimiters (snd (constructAll (\<lambda>url. True) ?calls moduleStart)) = [200]"
    by (simp add: CanvasApi_constructor_def moduleStart_def intervalOf_def)
  have e: "map requestField (instancesOf (fst (constructAll (\<lambda>url. True) ?calls moduleStart)))
     = [UndiciRequest, RateLimitedRequest 0, RateLimitedRequest 0, RateLimitedRequest 0]"
    by (simp add: CanvasApi_constructor_def moduleStart_def intervalOf_def)
  from a b c d e show ?thesis by blast
qed

end
